theory Spec2Isabelle
  imports Complex_Main
begin

section \<open>Errors, results and Python list indexing\<close>

text \<open>
  The exceptions the modelled code can raise. \<open>ValueError_negative_m m\<close> is
  \<^verbatim>\<open>ValueError(f"negative m: {hex(m)}")\<close>, \<open>ValueError_w\<close> is
  \<^verbatim>\<open>ValueError("w must be strictly positive")\<close>. \<open>IndexError\<close> and
  \<open>ZeroDivisionError\<close> are the interpreter's own, and so is \<open>OverflowError\<close>, raised
  by a true division whose result is too large for a float. \<open>BTClibTypeError\<close> is raised by
  \<^verbatim>\<open>int_from_integer\<close>; \<open>ValueError_builtin\<close> stands for a \<^verbatim>\<open>ValueError\<close> raised
  inside \<^verbatim>\<open>int(s, 16)\<close> or \<^verbatim>\<open>bytes.fromhex\<close>; \<open>ValueError_not_on_curve\<close> for the
  failure of \<^verbatim>\<open>ec.require_on_curve\<close>.
\<close>

datatype error =
    ValueError_negative_m int
  | ValueError_w
  | IndexError
  | ZeroDivisionError
  | OverflowError
  | BTClibTypeError
  | ValueError_builtin
  | ValueError_not_on_curve

text \<open>Sequencing of computations that may raise: the first error wins.\<close>

fun bindE :: "error + 'a \<Rightarrow> ('a \<Rightarrow> error + 'b) \<Rightarrow> error + 'b" where
  "bindE (Inl e) f = Inl e"
| "bindE (Inr x) f = f x"

text \<open>
  Python's \<^verbatim>\<open>xs[i]\<close>: a negative index counts from the end, anything outside
  \<open>-len \<dots> len-1\<close> raises \<^verbatim>\<open>IndexError\<close>.
\<close>

definition py_nth :: "'a list \<Rightarrow> int \<Rightarrow> error + 'a" where
  "py_nth xs i =
     (let len = int (length xs); j = (if i < 0 then len + i else i)
      in if 0 \<le> j \<and> j < len then Inr (xs ! nat j) else Inl IndexError)"

text \<open>A \<^verbatim>\<open>for\<close> loop whose body may raise, over the list of values of the loop variable.\<close>

fun foldE :: "('s \<Rightarrow> 'x \<Rightarrow> error + 's) \<Rightarrow> 's \<Rightarrow> 'x list \<Rightarrow> error + 's" where
  "foldE f s [] = Inr s"
| "foldE f s (x # xs) = bindE (f s x) (\<lambda>s'. foldE f s' xs)"

section \<open>The collaborators: curve group and imported names\<close>

text \<open>
  \<^verbatim>\<open>curve.py\<close> and \<^verbatim>\<open>alias.py\<close> are not part of the verified sources. A
  \<^verbatim>\<open>CurveGroup\<close> \<open>ec\<close> is therefore a record of the attributes and methods the
  multiplication functions use: the order \<^verbatim>\<open>ec.n\<close>, the generator \<^verbatim>\<open>ec.GJ\<close>,
  \<^verbatim>\<open>ec._add_jac\<close>, \<^verbatim>\<open>ec.negate\<close>, \<^verbatim>\<open>ec._aff_from_jac\<close> and
  \<^verbatim>\<open>ec.require_on_curve\<close> (\<open>True\<close> when it returns, \<open>False\<close> when it raises).
  \<open>'p\<close> is the type of Jacobian points, \<open>'a\<close> the type of affine points.
\<close>

record ('p, 'a) CurveGroup =
  n :: int
  GJ :: 'p
  add_jac :: "'p \<Rightarrow> 'p \<Rightarrow> 'p"
  negate :: "'p \<Rightarrow> 'p"
  aff_from_jac :: "'p \<Rightarrow> 'a"
  require_on_curve :: "'a \<Rightarrow> bool"

text \<open>
  The names imported at module level: the constant \<^verbatim>\<open>INFJ\<close>, the function
  \<^verbatim>\<open>_jac_from_aff\<close>, and the Python built-ins \<^verbatim>\<open>int_from_integer\<close> relies on:
  \<^verbatim>\<open>s.strip().lower()\<close>, \<^verbatim>\<open>int(s, 16)\<close> and \<^verbatim>\<open>bytes.fromhex(s)\<close>.
\<close>

record ('p, 'a) Imports =
  INFJ :: 'p
  jac_from_aff :: "'a \<Rightarrow> 'p"
  str_strip_lower :: "string \<Rightarrow> string"
  int_base16 :: "string \<Rightarrow> error + int"
  bytes_fromhex :: "string \<Rightarrow> error + nat list"

section \<open>Scalar multiples in an abelian group\<close>

text \<open>
  The reference notion \<open>k \<cdot> g\<close>: \<open>g\<close> added to itself \<open>k\<close> times, negated for
  a negative \<open>k\<close>.
\<close>

definition smul :: "int \<Rightarrow> 'g::ab_group_add \<Rightarrow> 'g" where
  "smul k g = (if 0 \<le> k then ((+) g ^^ nat k) 0 else - (((+) g ^^ nat (- k)) 0))"

text \<open>
  What is assumed of the collaborator: \<open>on\<close> is the set of Jacobian triples that
  lie on the curve, \<open>pt\<close> maps such a triple to the group element it represents
  (several triples represent the same element), \<^verbatim>\<open>INFJ\<close> represents the neutral
  element, and \<^verbatim>\<open>_add_jac\<close> and \<^verbatim>\<open>negate\<close> implement the group law on
  representatives.
\<close>

definition group_law ::
  "('p, 'a) CurveGroup \<Rightarrow> 'p \<Rightarrow> ('p \<Rightarrow> bool) \<Rightarrow> ('p \<Rightarrow> 'g::ab_group_add) \<Rightarrow> bool" where
  "group_law ec infj on pt \<longleftrightarrow>
     on infj \<and> pt infj = 0 \<and>
     (\<forall>P Q. on P \<longrightarrow> on Q \<longrightarrow> on (add_jac ec P Q) \<and> pt (add_jac ec P Q) = pt P + pt Q) \<and>
     (\<forall>P. on P \<longrightarrow> on (negate ec P) \<and> pt (negate ec P) = - pt P)"

text \<open>
  A small concrete group for evaluating the functions: the integers under addition,
  every integer its own representative. The affine view reduces modulo the order.
\<close>

definition toy :: "(int, int) CurveGroup" where
  "toy = \<lparr>n = 7, GJ = 1, add_jac = (+), negate = uminus,
          aff_from_jac = (\<lambda>x. x mod 7), require_on_curve = (\<lambda>x. True)\<rparr>"

section \<open>Montgomery ladder\<close>

text \<open>
  \<^verbatim>\<open>[int(i) for i in bin(m)[2:]]\<close> for \<open>m \<ge> 0\<close>: the binary digits of \<open>m\<close>, most
  significant first, without leading zeros; \<^verbatim>\<open>bin(0)\<close> is \<^verbatim>\<open>"0b0"\<close>, one digit.
  The engine only reaches it after rejecting \<open>m < 0\<close>, so the argument is a natural number.
\<close>

fun bin_digits :: "nat \<Rightarrow> int list" where
  "bin_digits m = (if m < 2 then [int m] else bin_digits (m div 2) @ [int (m mod 2)])"

declare bin_digits.simps [simp del]

text \<open>One iteration of the loop of \<^verbatim>\<open>_mult_jac_mont_ladder\<close> on the state \<open>(R, Q)\<close>.\<close>

fun mont_ladder_step :: "('p, 'a) CurveGroup \<Rightarrow> 'p \<times> 'p \<Rightarrow> int \<Rightarrow> 'p \<times> 'p" where
  "mont_ladder_step ec (R, Q) d =
     (if d = 0 then
        (let Q' = add_jac ec R Q; R' = add_jac ec R R in (R', Q'))
      else
        (let R' = add_jac ec R Q; Q' = add_jac ec Q Q in (R', Q')))"

definition mult_jac_mont_ladder ::
  "'p \<Rightarrow> int \<Rightarrow> 'p \<Rightarrow> ('p, 'a) CurveGroup \<Rightarrow> error + 'p" where
  "mult_jac_mont_ladder infj m Q ec =
     (if m < 0 then Inl (ValueError_negative_m m)
      else if Q = infj then Inr Q
      else Inr (fst (foldl (mont_ladder_step ec) (infj, Q) (bin_digits (nat m)))))"



text \<open>The value of a digit sequence read most significant digit first, in base \<open>b\<close>.\<close>

definition digits_val :: "int \<Rightarrow> int \<Rightarrow> int list \<Rightarrow> int" where
  "digits_val b v ds = foldl (\<lambda>a d. b * a + d) v ds"

section \<open>Digit decomposition\<close>

text \<open>Python's \<^verbatim>\<open>range(a, b)\<close>: the integers from \<open>a\<close> up to \<open>b - 1\<close>.\<close>

definition py_range :: "int \<Rightarrow> int \<Rightarrow> int list" where
  "py_range a b = [a..b - 1]"

text \<open>
  Results of functions that contain a \<^verbatim>\<open>while\<close> loop: \<open>None\<close> when the loop
  never ends, \<open>Some (Inl e)\<close> when \<open>e\<close> is raised, \<open>Some (Inr x)\<close> when \<open>x\<close> is
  returned.
\<close>

fun bindO :: "(error + 'a) option \<Rightarrow> ('a \<Rightarrow> (error + 'b) option) \<Rightarrow> (error + 'b) option" where
  "bindO None f = None"
| "bindO (Some (Inl e)) f = Some (Inl e)"
| "bindO (Some (Inr x)) f = f x"

text \<open>
  The loop of \<^verbatim>\<open>numberToBase\<close>: \<^verbatim>\<open>while n: digits.append(int(n % b)); n //= b\<close>.
  The number to convert, \<open>n\<close> in the source, is called \<open>k\<close> here, \<open>n\<close> being the
  field of the curve group.
  Python's \<^verbatim>\<open>%\<close> and \<^verbatim>\<open>//\<close> on integers round towards minus infinity, as
  \<open>mod\<close> and \<open>div\<close> on \<open>int\<close> do, and raise for a zero divisor.
\<close>

partial_function (option) numberToBase_loop ::
  "int \<Rightarrow> int \<Rightarrow> int list \<Rightarrow> (error + int list) option" where
  "numberToBase_loop k b digits =
     (if k \<noteq> 0 then
        (if b = 0 then Some (Inl ZeroDivisionError)
         else numberToBase_loop (k div b) b (digits @ [k mod b]))
      else Some (Inr digits))"

declare numberToBase_loop.simps [code]

definition numberToBase :: "int \<Rightarrow> int \<Rightarrow> (error + int list) option" where
  "numberToBase k b =
     (if k = 0 then Some (Inr [0])
      else bindO (numberToBase_loop k b []) (\<lambda>digits. Some (Inr (rev digits))))"

section \<open>Precomputation tables\<close>

text \<open>
  The table loops \<^verbatim>\<open>for i in range(1, b): T.append(ec._add_jac(T[i - 1], X))\<close>,
  starting from the one-element list \<open>[first]\<close>.
\<close>

definition table_step :: "('p, 'a) CurveGroup \<Rightarrow> 'p \<Rightarrow> 'p list \<Rightarrow> int \<Rightarrow> error + 'p list" where
  "table_step ec X T i = bindE (py_nth T (i - 1)) (\<lambda>P. Inr (T @ [add_jac ec P X]))"

definition build_table :: "('p, 'a) CurveGroup \<Rightarrow> 'p \<Rightarrow> 'p \<Rightarrow> int \<Rightarrow> error + 'p list" where
  "build_table ec first X b = foldE (table_step ec X) [first] (py_range 1 b)"

text \<open>\<^verbatim>\<open>for j in range(k): R = ec._add_jac(R, R)\<close>\<close>

definition doublings :: "('p, 'a) CurveGroup \<Rightarrow> int \<Rightarrow> 'p \<Rightarrow> 'p" where
  "doublings ec k R = foldl (\<lambda>R j. add_jac ec R R) R (py_range 0 k)"

section \<open>Radix 3\<close>

text \<open>The body of the main loop of \<^verbatim>\<open>_mult_jac_base_3\<close>, for the loop index \<open>i\<close>.\<close>

definition base_3_step ::
  "('p, 'a) CurveGroup \<Rightarrow> 'p list \<Rightarrow> int list \<Rightarrow> 'p \<Rightarrow> int \<Rightarrow> error + 'p" where
  "base_3_step ec T M R i =
     (let R2 = add_jac ec R R;
          R' = add_jac ec R2 R
      in bindE (py_nth M i) (\<lambda>d. bindE (py_nth T d) (\<lambda>P. Inr (add_jac ec R' P))))"

definition mult_jac_base_3 ::
  "'p \<Rightarrow> int \<Rightarrow> 'p \<Rightarrow> ('p, 'a) CurveGroup \<Rightarrow> (error + 'p) option" where
  "mult_jac_base_3 infj m Q ec =
     (if m < 0 then Some (Inl (ValueError_negative_m m))
      else if Q = infj then Some (Inr Q)
      else bindO (Some (build_table ec infj Q 3)) (\<lambda>T.
           bindO (numberToBase m 3) (\<lambda>M.
           bindO (Some (py_nth M 0)) (\<lambda>d0.
           bindO (Some (py_nth T d0)) (\<lambda>R.
           Some (foldE (base_3_step ec T M) R (py_range 1 (int (length M)))))))))"

section \<open>Fixed window\<close>

definition fixed_window_step ::
  "('p, 'a) CurveGroup \<Rightarrow> int \<Rightarrow> 'p list \<Rightarrow> int list \<Rightarrow> 'p \<Rightarrow> int \<Rightarrow> error + 'p" where
  "fixed_window_step ec w T M R i =
     (let R' = doublings ec w R
      in bindE (py_nth M i) (\<lambda>d. bindE (py_nth T d) (\<lambda>P. Inr (add_jac ec R' P))))"

definition mult_jac_fixed_window ::
  "'p \<Rightarrow> int \<Rightarrow> int \<Rightarrow> 'p \<Rightarrow> ('p, 'a) CurveGroup \<Rightarrow> (error + 'p) option" where
  "mult_jac_fixed_window infj m w Q ec =
     (if m < 0 then Some (Inl (ValueError_negative_m m))
      else if Q = infj then Some (Inr Q)
      else if w \<le> 0 then Some (Inl ValueError_w)
      else
        (let b = 2 ^ nat w in
           bindO (Some (build_table ec infj Q b)) (\<lambda>T.
           bindO (numberToBase m b) (\<lambda>M.
           bindO (Some (py_nth M 0)) (\<lambda>d0.
           bindO (Some (py_nth T d0)) (\<lambda>R.
           Some (foldE (fixed_window_step ec w T M) R (py_range 1 (int (length M))))))))))"

section \<open>Sliding window\<close>

text \<open>
  The table of \<^verbatim>\<open>_mult_jac_sliding_window\<close>, built after \<open>w \<le> 0\<close> has been
  rejected: \<open>k = w - 1\<close>, \<open>p = 2 ^ k\<close>, \<open>P\<close> is
  \<open>Q\<close> doubled \<open>k\<close> times, \<open>T = [P]\<close>, and then
  \<^verbatim>\<open>for i in range(1, p): T.append(ec._add_jac(T[i - 1], Q))\<close>.
\<close>

definition sliding_window_table :: "('p, 'a) CurveGroup \<Rightarrow> int \<Rightarrow> 'p \<Rightarrow> error + 'p list" where
  "sliding_window_table ec w Q =
     (let k = w - 1;
          p = 2 ^ nat k;
          P = doublings ec k Q
      in build_table ec P Q p)"

text \<open>\<^verbatim>\<open>t = M[i]; for a in range(1, j): t = 2 * t + M[i + a]\<close>\<close>

definition window_value :: "int list \<Rightarrow> int \<Rightarrow> int \<Rightarrow> error + int" where
  "window_value M i j =
     bindE (py_nth M i) (\<lambda>t0.
       foldE (\<lambda>t a. bindE (py_nth M (i + a)) (\<lambda>d. Inr (2 * t + d))) t0 (py_range 1 j))"

text \<open>The bit-by-bit tail: \<^verbatim>\<open>R = ec._add_jac(R, R); if M[b] == 1: R = ec._add_jac(R, Q)\<close>.\<close>

definition short_window_step ::
  "('p, 'a) CurveGroup \<Rightarrow> 'p \<Rightarrow> int list \<Rightarrow> 'p \<Rightarrow> int \<Rightarrow> error + 'p" where
  "short_window_step ec Q M R b =
     (let R' = add_jac ec R R
      in bindE (py_nth M b) (\<lambda>d. Inr (if d = 1 then add_jac ec R' Q else R')))"

text \<open>The \<^verbatim>\<open>while i < len(M)\<close> loop, on the loop state \<open>(i, R)\<close>.\<close>

partial_function (option) sliding_window_loop ::
  "('p, 'a) CurveGroup \<Rightarrow> 'p \<Rightarrow> int \<Rightarrow> int \<Rightarrow> 'p list \<Rightarrow> int list \<Rightarrow> int \<Rightarrow> 'p
     \<Rightarrow> (error + 'p) option" where
  "sliding_window_loop ec Q w p T M i R =
     (if i < int (length M) then
        (case py_nth M i of
           Inl e \<Rightarrow> Some (Inl e)
         | Inr Mi \<Rightarrow>
             if Mi = 0 then sliding_window_loop ec Q w p T M (i + 1) (add_jac ec R R)
             else
               (let j = (if int (length M) - i < w then int (length M) - i else w) in
                case window_value M i j of
                  Inl e \<Rightarrow> Some (Inl e)
                | Inr t \<Rightarrow>
                    if j < w then
                      Some (foldE (short_window_step ec Q M) R (py_range i (i + j)))
                    else
                      (let R' = doublings ec w R in
                       case py_nth T (t - p) of
                         Inl e \<Rightarrow> Some (Inl e)
                       | Inr P \<Rightarrow>
                           sliding_window_loop ec Q w p T M (i + j) (add_jac ec R' P))))
      else Some (Inr R))"

declare sliding_window_loop.simps [code]

definition mult_jac_sliding_window ::
  "'p \<Rightarrow> int \<Rightarrow> int \<Rightarrow> 'p \<Rightarrow> ('p, 'a) CurveGroup \<Rightarrow> (error + 'p) option" where
  "mult_jac_sliding_window infj m w Q ec =
     (if m < 0 then Some (Inl (ValueError_negative_m m))
      else if Q = infj then Some (Inr Q)
      else if w \<le> 0 then Some (Inl ValueError_w)
      else
        (let p = 2 ^ nat (w - 1) in
           bindO (Some (sliding_window_table ec w Q)) (\<lambda>T.
           bindO (numberToBase m 2) (\<lambda>M.
           sliding_window_loop ec Q w p T M 0 infj))))"

section \<open>Signed digits and wNAF\<close>

text \<open>
  \<^verbatim>\<open>mods(m, w)\<close>. The test \<^verbatim>\<open>M >= (w2 / 2)\<close> first evaluates the true division
  \<open>w2 / 2\<close> of two integers to a float. Python raises \<^verbatim>\<open>OverflowError\<close> when the
  quotient is too large for a float, that is when it is not below \<open>2 ^ 1024\<close>;
  otherwise the quotient, a power of two (or one half), is represented exactly. Python
  then compares the integer \<open>M\<close> with that float by value, which is the comparison of
  the two numbers, written here over the reals. The window width is a natural number:
  the engine calls \<^verbatim>\<open>mods\<close> only after rejecting \<open>w \<le> 0\<close>, and \<^verbatim>\<open>pow(2, w)\<close> of a
  negative \<open>w\<close> is not an integer.
\<close>

definition mods :: "int \<Rightarrow> nat \<Rightarrow> error + int" where
  "mods m w =
     (let w2 = 2 ^ w;
          M = m mod w2
      in if (2::real) ^ 1024 \<le> real_of_int w2 / 2 then Inl OverflowError
         else if real_of_int M \<ge> real_of_int w2 / 2 then Inr (M - w2)
         else Inr M)"

text \<open>
  The digit loop of \<^verbatim>\<open>_mult_jac_w_NAF\<close>, on the state \<open>(m, i, M)\<close>; it returns the
  digit list \<open>M\<close> (least significant digit first) and the counter \<open>i\<close>. An error
  raised by \<^verbatim>\<open>mods\<close> in \<^verbatim>\<open>M.append(mods(m, w))\<close> ends the loop.
\<close>

partial_function (option) w_NAF_digits ::
  "nat \<Rightarrow> int \<Rightarrow> int \<Rightarrow> int list \<Rightarrow> (error + int list \<times> int) option" where
  "w_NAF_digits w m i M =
     (if m > 0 then
        (if m mod 2 = 1 then
           (case mods m w of
              Inl e \<Rightarrow> Some (Inl e)
            | Inr s \<Rightarrow>
                (let M' = M @ [s] in
                 case py_nth M' i of
                   Inl e \<Rightarrow> Some (Inl e)
                 | Inr d \<Rightarrow> w_NAF_digits w ((m - d) div 2) (i + 1) M'))
         else w_NAF_digits w (m div 2) (i + 1) (M @ [0]))
      else Some (Inr (M, i)))"

declare w_NAF_digits.simps [code]

text \<open>
  The table of the wNAF engine, for \<open>b = 2 ^ w\<close>: \<open>Q2 = Q + Q\<close>, \<open>T = [Q]\<close>,
  \<^verbatim>\<open>for i in range(1, b // 2): T.append(ec._add_jac(T[i - 1], Q2))\<close> and
  \<^verbatim>\<open>for i in range(b // 2, b): T.append(ec.negate(T[i - (b // 2)]))\<close>.
\<close>

definition negate_step :: "('p, 'a) CurveGroup \<Rightarrow> int \<Rightarrow> 'p list \<Rightarrow> int \<Rightarrow> error + 'p list" where
  "negate_step ec b T i = bindE (py_nth T (i - b div 2)) (\<lambda>P. Inr (T @ [negate ec P]))"

definition w_NAF_table :: "('p, 'a) CurveGroup \<Rightarrow> int \<Rightarrow> 'p \<Rightarrow> error + 'p list" where
  "w_NAF_table ec b Q =
     (let Q2 = add_jac ec Q Q
      in bindE (build_table ec Q Q2 (b div 2)) (\<lambda>T.
           foldE (negate_step ec b) T (py_range (b div 2) b)))"

text \<open>The body of the main loop, for the loop index \<open>j\<close>.\<close>

definition w_NAF_step ::
  "('p, 'a) CurveGroup \<Rightarrow> int \<Rightarrow> 'p list \<Rightarrow> int list \<Rightarrow> 'p \<Rightarrow> int \<Rightarrow> error + 'p" where
  "w_NAF_step ec b T M R j =
     (let R' = add_jac ec R R
      in bindE (py_nth M j) (\<lambda>d.
           if d \<noteq> 0 then
             (if d > 0 then
                bindE (py_nth T ((d - 1) div 2)) (\<lambda>P. Inr (add_jac ec R' P))
              else
                bindE (py_nth T (b div 2 - ((d + 1) div 2))) (\<lambda>P. Inr (add_jac ec R' P)))
           else Inr R'))"

definition mult_jac_w_NAF ::
  "'p \<Rightarrow> int \<Rightarrow> int \<Rightarrow> 'p \<Rightarrow> ('p, 'a) CurveGroup \<Rightarrow> (error + 'p) option" where
  "mult_jac_w_NAF infj m w Q ec =
     (if m < 0 then Some (Inl (ValueError_negative_m m))
      else if m = 0 then Some (Inr infj)
      else if Q = infj then Some (Inr Q)
      else if w \<le> 0 then Some (Inl ValueError_w)
      else
        bindO (w_NAF_digits (nat w) m 0 []) (\<lambda>(M, p).
          (let b = 2 ^ nat w in
           bindO (Some (w_NAF_table ec b Q)) (\<lambda>T.
             Some (foldE (w_NAF_step ec b T M) infj (rev (py_range 0 p)))))))"

section \<open>Public entry points\<close>

text \<open>
  The values \<^verbatim>\<open>int_from_integer\<close> can be given: an \<^verbatim>\<open>int\<close>, a \<^verbatim>\<open>str\<close>, a
  \<^verbatim>\<open>bytes\<close> object (a list of numbers below 256), or anything else.
\<close>

datatype Integer = PyInt int | PyStr string | PyBytes "nat list" | PyOther

text \<open>\<^verbatim>\<open>int.from_bytes(i, "big")\<close>\<close>

definition int_from_bytes_big :: "nat list \<Rightarrow> int" where
  "int_from_bytes_big bs = foldl (\<lambda>a x. 256 * a + int x) 0 bs"

definition startswith :: "string \<Rightarrow> string \<Rightarrow> bool" where
  "startswith s pre = (take (length pre) s = pre)"

fun int_from_integer :: "('p, 'a) Imports \<Rightarrow> Integer \<Rightarrow> error + int" where
  "int_from_integer im (PyInt i) = Inr i"
| "int_from_integer im (PyStr s) =
     (let s' = str_strip_lower im s in
      if startswith s' ''0x'' \<or> startswith s' ''-0x'' then int_base16 im s'
      else bindE (bytes_fromhex im s') (\<lambda>bs. Inr (int_from_bytes_big bs)))"
| "int_from_integer im (PyBytes bs) = Inr (int_from_bytes_big bs)"
| "int_from_integer im PyOther = Inl BTClibTypeError"

text \<open>
  The common head of the entry points: the point defaults to the generator, otherwise
  it is checked and converted; then \<^verbatim>\<open>m = int_from_integer(m) % ec.n\<close>.
\<close>

definition point_arg :: "('p, 'a) Imports \<Rightarrow> 'a option \<Rightarrow> ('p, 'a) CurveGroup \<Rightarrow> error + 'p" where
  "point_arg im Q ec =
     (case Q of
        None \<Rightarrow> Inr (GJ ec)
      | Some q \<Rightarrow> if require_on_curve ec q then Inr (jac_from_aff im q)
                  else Inl ValueError_not_on_curve)"

definition scalar_arg :: "('p, 'a) Imports \<Rightarrow> Integer \<Rightarrow> ('p, 'a) CurveGroup \<Rightarrow> error + int" where
  "scalar_arg im m ec =
     bindE (int_from_integer im m) (\<lambda>mi.
       if n ec = 0 then Inl ZeroDivisionError else Inr (mi mod n ec))"

definition mult_mont_ladder ::
  "('p, 'a) Imports \<Rightarrow> Integer \<Rightarrow> 'a option \<Rightarrow> ('p, 'a) CurveGroup \<Rightarrow> error + 'a" where
  "mult_mont_ladder im m Q ec =
     bindE (point_arg im Q ec) (\<lambda>QJ.
     bindE (scalar_arg im m ec) (\<lambda>m'.
     bindE (mult_jac_mont_ladder (INFJ im) m' QJ ec) (\<lambda>R.
     Inr (aff_from_jac ec R))))"

definition mult_base_3 ::
  "('p, 'a) Imports \<Rightarrow> Integer \<Rightarrow> 'a option \<Rightarrow> ('p, 'a) CurveGroup \<Rightarrow> (error + 'a) option" where
  "mult_base_3 im m Q ec =
     bindO (Some (point_arg im Q ec)) (\<lambda>QJ.
     bindO (Some (scalar_arg im m ec)) (\<lambda>m'.
     bindO (mult_jac_base_3 (INFJ im) m' QJ ec) (\<lambda>R.
     Some (Inr (aff_from_jac ec R)))))"

definition mult_fixed_window ::
  "('p, 'a) Imports \<Rightarrow> Integer \<Rightarrow> Integer \<Rightarrow> 'a option \<Rightarrow> ('p, 'a) CurveGroup
     \<Rightarrow> (error + 'a) option" where
  "mult_fixed_window im m w Q ec =
     bindO (Some (point_arg im Q ec)) (\<lambda>QJ.
     bindO (Some (scalar_arg im m ec)) (\<lambda>m'.
     bindO (Some (int_from_integer im w)) (\<lambda>w'.
     bindO (mult_jac_fixed_window (INFJ im) m' w' QJ ec) (\<lambda>R.
     Some (Inr (aff_from_jac ec R))))))"

definition mult_sliding_window ::
  "('p, 'a) Imports \<Rightarrow> Integer \<Rightarrow> Integer \<Rightarrow> 'a option \<Rightarrow> ('p, 'a) CurveGroup
     \<Rightarrow> (error + 'a) option" where
  "mult_sliding_window im m w Q ec =
     bindO (Some (point_arg im Q ec)) (\<lambda>QJ.
     bindO (Some (scalar_arg im m ec)) (\<lambda>m'.
     bindO (Some (int_from_integer im w)) (\<lambda>w'.
     bindO (mult_jac_sliding_window (INFJ im) m' w' QJ ec) (\<lambda>R.
     Some (Inr (aff_from_jac ec R))))))"

definition mult_w_NAF ::
  "('p, 'a) Imports \<Rightarrow> Integer \<Rightarrow> Integer \<Rightarrow> 'a option \<Rightarrow> ('p, 'a) CurveGroup
     \<Rightarrow> (error + 'a) option" where
  "mult_w_NAF im m w Q ec =
     bindO (Some (point_arg im Q ec)) (\<lambda>QJ.
     bindO (Some (scalar_arg im m ec)) (\<lambda>m'.
     bindO (Some (int_from_integer im w)) (\<lambda>w'.
     bindO (mult_jac_w_NAF (INFJ im) m' w' QJ ec) (\<lambda>R.
     Some (Inr (aff_from_jac ec R))))))"

text \<open>Imported names to go with the concrete group \<open>toy\<close>.\<close>

definition toy_imports :: "(int, int) Imports" where
  "toy_imports = \<lparr>INFJ = 0, jac_from_aff = (\<lambda>x. x), str_strip_lower = (\<lambda>s. s),
                  int_base16 = (\<lambda>s. Inl ValueError_builtin),
                  bytes_fromhex = (\<lambda>s. Inl ValueError_builtin)\<rparr>"

section \<open>Facts about scalar multiples\<close>

lemma funpow_plus_add:
  "((+) (g::'g::ab_group_add) ^^ (a + b)) 0 = ((+) g ^^ a) 0 + ((+) g ^^ b) 0"
  by (induction a) (simp_all add: add.assoc)

lemma smul_int_diff: "smul (int a - int b) g = ((+) g ^^ a) 0 - ((+) g ^^ b) 0"
proof (cases "b \<le> a")
  case True
  then obtain c where "a = c + b" by (metis le_add_diff_inverse2)
  then show ?thesis by (simp add: smul_def funpow_plus_add)
next
  case False
  then obtain c where c: "b = c + a" "c > 0"
    by (metis le_add_diff_inverse2 nat_le_linear not_le zero_less_diff add.commute)
  then have "int a - int b = - int c" by simp
  then show ?thesis using c by (simp add: smul_def funpow_plus_add)
qed

lemma smul_add: "smul (a + b) g = smul a g + smul b g"
proof -
  obtain a1 a2 where a: "a = int a1 - int a2" by (metis int_diff_cases)
  obtain b1 b2 where b: "b = int b1 - int b2" by (metis int_diff_cases)
  have "a + b = int (a1 + b1) - int (a2 + b2)" using a b by simp
  then have "smul (a + b) g = ((+) g ^^ (a1 + b1)) 0 - ((+) g ^^ (a2 + b2)) 0"
    by (simp only: smul_int_diff)
  then show ?thesis unfolding a b smul_int_diff by (simp add: funpow_plus_add)
qed

lemma smul_0 [simp]: "smul 0 g = 0"
  by (simp add: smul_def)

lemma smul_1 [simp]: "smul 1 g = g"
  by (simp add: smul_def)

lemma smul_zero_right [simp]: "smul k (0::'g::ab_group_add) = 0"
proof -
  have "((+) (0::'g) ^^ j) 0 = 0" for j by (induction j) simp_all
  then show ?thesis by (simp add: smul_def)
qed

lemma smul_minus: "smul (- a) g = - smul a g"
  using smul_add[of a "- a" g] by (simp add: eq_neg_iff_add_eq_0 add.commute)

lemma smul_2: "smul 2 g = g + g"
  using smul_add[of 1 1 g] by simp

lemma smul_nat_mult: "smul (int k * b) g = smul (int k) (smul b g)"
proof (induction k)
  case 0
  show ?case by simp
next
  case (Suc k)
  have "int (Suc k) * b = b + int k * b" by (simp add: algebra_simps)
  moreover have "int (Suc k) = 1 + int k" by simp
  ultimately show ?case using Suc by (simp only: smul_add smul_1)
qed

lemma smul_mult: "smul (a * b) g = smul a (smul b g)"
proof (cases "0 \<le> a")
  case True
  then show ?thesis using smul_nat_mult[of "nat a" b g] by simp
next
  case False
  then have "a = - int (nat (- a))" by simp
  then obtain k where "a = - int k" ..
  then show ?thesis using smul_nat_mult[of k b g] by (simp add: smul_minus)
qed

lemma smul_double: "smul (2 * a) g = smul a g + smul a g"
  using smul_add[of a a g] by simp

section \<open>Facts about the Montgomery ladder\<close>

lemma digits_val_append: "digits_val b v (xs @ ys) = digits_val b (digits_val b v xs) ys"
  by (simp add: digits_val_def)

lemma digits_val_Nil [simp]: "digits_val b v [] = v"
  by (simp add: digits_val_def)

lemma digits_val_Cons [simp]: "digits_val b v (d # ds) = digits_val b (b * v + d) ds"
  by (simp add: digits_val_def)

lemma bin_digits_val: "digits_val 2 0 (bin_digits m) = int m"
proof (induction m rule: bin_digits.induct)
  case (1 m)
  show ?case
  proof (cases "m < 2")
    case True
    then show ?thesis by (subst bin_digits.simps) simp
  next
    case False
    then have "digits_val 2 0 (bin_digits (m div 2)) = int (m div 2)" using 1 by simp
    moreover have "2 * int (m div 2) + int (m mod 2) = int m"
      by (metis of_nat_add of_nat_mult of_nat_numeral mult_div_mod_eq)
    ultimately show ?thesis using False
      by (subst bin_digits.simps) (simp add: digits_val_append)
  qed
qed

lemma bin_digits_bits: "d \<in> set (bin_digits m) \<Longrightarrow> d = 0 \<or> d = 1"
proof (induction m rule: bin_digits.induct)
  case (1 m)
  show ?case
  proof (cases "m < 2")
    case True
    then show ?thesis using 1(2) by (subst (asm) bin_digits.simps) auto
  next
    case False
    then show ?thesis using 1 by (subst (asm) (2) bin_digits.simps) auto
  qed
qed



lemma mont_ladder_loop_inv:
  assumes gl: "group_law ec infj on pt"
  shows "on R \<Longrightarrow> on Q \<Longrightarrow> pt Q - pt R = g \<Longrightarrow> pt R = smul v g \<Longrightarrow>
         \<forall>d\<in>set ds. d = 0 \<or> d = 1 \<Longrightarrow>
         foldl (mont_ladder_step ec) (R, Q) ds = (R', Q') \<Longrightarrow>
         on R' \<and> on Q' \<and> pt Q' - pt R' = g \<and> pt R' = smul (digits_val 2 v ds) g"
proof (induction ds arbitrary: R Q v)
  case Nil
  then show ?case by simp
next
  case (Cons d ds)
  have add: "\<And>P Q. on P \<Longrightarrow> on Q \<Longrightarrow> on (add_jac ec P Q) \<and> pt (add_jac ec P Q) = pt P + pt Q"
    using gl by (simp add: group_law_def)
  have Qeq: "pt Q = g + pt R" using Cons.prems(3) by (simp add: algebra_simps)
  show ?case
  proof (cases "d = 0")
    case True
    let ?Q = "add_jac ec R Q" and ?R = "add_jac ec R R"
    have step: "foldl (mont_ladder_step ec) (?R, ?Q) ds = (R', Q')"
      using Cons.prems(6) True by (simp add: Let_def)
    have on': "on ?R" "on ?Q" using add Cons.prems(1,2) by simp_all
    have "pt ?Q - pt ?R = g" using add Cons.prems(1,2) Qeq by (simp add: algebra_simps)
    moreover have "pt ?R = smul (2 * v + d) g"
      using add Cons.prems(1,4) True by (simp add: smul_double)
    moreover have "\<forall>d\<in>set ds. d = 0 \<or> d = 1" using Cons.prems(5) by simp
    ultimately have "on R' \<and> on Q' \<and> pt Q' - pt R' = g \<and> pt R' = smul (digits_val 2 (2 * v + d) ds) g"
      using on' step by (intro Cons.IH)
    then show ?thesis unfolding digits_val_Cons .
  next
    case False
    then have d1: "d = 1" using Cons.prems(5) by auto
    let ?R = "add_jac ec R Q" and ?Q = "add_jac ec Q Q"
    have step: "foldl (mont_ladder_step ec) (?R, ?Q) ds = (R', Q')"
      using Cons.prems(6) d1 by (simp add: Let_def)
    have on': "on ?R" "on ?Q" using add Cons.prems(1,2) by simp_all
    have "pt ?Q - pt ?R = g" using add Cons.prems(1,2) Qeq by (simp add: algebra_simps)
    moreover have "pt ?R = smul (2 * v + d) g"
    proof -
      have "pt ?R = pt R + (g + pt R)" using add Cons.prems(1,2) Qeq by simp
      also have "\<dots> = smul (2 * v) g + smul 1 g"
        using Cons.prems(4) by (simp add: smul_double add.commute add.left_commute)
      finally show ?thesis using d1 by (simp only: smul_add)
    qed
    moreover have "\<forall>d\<in>set ds. d = 0 \<or> d = 1" using Cons.prems(5) by simp
    ultimately have "on R' \<and> on Q' \<and> pt Q' - pt R' = g \<and> pt R' = smul (digits_val 2 (2 * v + d) ds) g"
      using on' step by (intro Cons.IH)
    then show ?thesis unfolding digits_val_Cons .
  qed
qed

lemma mont_ladder_correct:
  assumes gl: "group_law ec infj on pt" and m: "0 \<le> m" and Q: "on Q"
  shows "\<exists>R. mult_jac_mont_ladder infj m Q ec = Inr R \<and> on R \<and> pt R = smul m (pt Q)"
proof (cases "Q = infj")
  case True
  then have "pt Q = 0" using gl by (simp add: group_law_def)
  then show ?thesis using True m Q by (simp add: mult_jac_mont_ladder_def)
next
  case False
  obtain R' Q' where f: "foldl (mont_ladder_step ec) (infj, Q) (bin_digits (nat m)) = (R', Q')"
    by (cases "foldl (mont_ladder_step ec) (infj, Q) (bin_digits (nat m))")
  have inf: "on infj" "pt infj = 0" using gl by (simp_all add: group_law_def)
  have "on R' \<and> on Q' \<and> pt Q' - pt R' = pt Q \<and> pt R' = smul (digits_val 2 0 (bin_digits (nat m))) (pt Q)"
    by (rule mont_ladder_loop_inv[OF gl _ _ _ _ _ f]) (use inf Q bin_digits_bits in auto)
  then show ?thesis using False m f by (simp add: mult_jac_mont_ladder_def bin_digits_val)
qed


lemma smul_int_eq: "smul k (g::int) = k * g"
proof -
  have nat: "smul (int j) g = int j * g" for j
  proof (induction j)
    case 0 show ?case by simp
  next
    case (Suc j)
    have "smul (int (Suc j)) g = smul (1 + int j) g" by simp
    also have "\<dots> = g + int j * g" using Suc by (simp only: smul_add smul_1)
    finally show ?case by (simp add: algebra_simps)
  qed
  show ?thesis
  proof (cases "0 \<le> k")
    case True
    then show ?thesis using nat[of "nat k"] by simp
  next
    case False
    then have "smul (- k) g = - k * g" using nat[of "nat (- k)"] by simp
    then show ?thesis by (simp add: smul_minus)
  qed
qed

lemma group_law_toy: "group_law toy 0 (\<lambda>P. True) (\<lambda>P. P)"
  by (simp add: group_law_def toy_def)



section \<open>Facts about the signed digits\<close>

lemma float_range_pow2: "((2::real) ^ k \<le> real_of_int (2 ^ w) / 2) = (Suc k \<le> w)"
proof -
  have "((2::real) ^ k \<le> real_of_int (2 ^ w) / 2) = ((2::real) ^ Suc k \<le> 2 ^ w)"
    by (simp add: field_simps)
  also have "\<dots> = (Suc k \<le> w)"
    by (rule power_increasing_iff) simp
  finally show ?thesis .
qed

lemma mods_eq:
  "mods m w = (if 1025 \<le> w then Inl OverflowError
               else if 2 ^ w \<le> 2 * (m mod 2 ^ w) then Inr (m mod 2 ^ w - 2 ^ w)
               else Inr (m mod 2 ^ w))"
proof -
  have ov: "((2::real) ^ 1024 \<le> real_of_int (2 ^ w) / 2) = (1025 \<le> w)"
    by (simp only: float_range_pow2) simp
  have cmp: "(real_of_int ((2::int) ^ w) / 2 \<le> real_of_int (m mod 2 ^ w)) = ((2::int) ^ w \<le> 2 * (m mod 2 ^ w))"
  proof -
    have "(real_of_int ((2::int) ^ w) / 2 \<le> real_of_int (m mod 2 ^ w))
          = (real_of_int (2 ^ w) \<le> real_of_int (2 * (m mod 2 ^ w)))"
      by (simp add: field_simps)
    also have "\<dots> = ((2::int) ^ w \<le> 2 * (m mod 2 ^ w))"
      by (rule of_int_le_iff)
    finally show ?thesis .
  qed
  show ?thesis unfolding mods_def Let_def ov cmp ..
qed

lemma mods_overflow: "1025 \<le> w \<Longrightarrow> mods m w = Inl OverflowError"
  by (simp only: mods_eq if_True)

lemma mods_returns:
  "w \<le> 1024 \<Longrightarrow> \<exists>d. mods m w = Inr d"
  by (subst mods_eq) simp

lemma mods_Inr:
  assumes "mods m w = Inr d"
  shows "w \<le> 1024"
    and "(2 ^ w \<le> 2 * (m mod 2 ^ w) \<and> d = m mod 2 ^ w - 2 ^ w) \<or>
         (\<not> 2 ^ w \<le> 2 * (m mod 2 ^ w) \<and> d = m mod 2 ^ w)"
proof -
  have a: "(if 1025 \<le> w then Inl OverflowError
               else if 2 ^ w \<le> 2 * (m mod 2 ^ w) then Inr (m mod 2 ^ w - 2 ^ w)
               else Inr (m mod 2 ^ w)) = Inr d"
    using assms by (simp only: mods_eq)
  then have n: "\<not> 1025 \<le> w" by (auto split: if_splits)
  then show "w \<le> 1024" by simp
  show "(2 ^ w \<le> 2 * (m mod 2 ^ w) \<and> d = m mod 2 ^ w - 2 ^ w) \<or>
         (\<not> 2 ^ w \<le> 2 * (m mod 2 ^ w) \<and> d = m mod 2 ^ w)"
    using a n by (auto split: if_splits)
qed

lemma mods_range:
  assumes "1 \<le> w" and d: "mods m w = Inr d"
  shows "d mod 2 ^ w = m mod 2 ^ w \<and> - (2 ^ (w - 1)) \<le> d \<and> d \<le> 2 ^ (w - 1) - 1"
proof -
  obtain k where w: "w = Suc k" using assms(1) by (cases w) auto
  let ?M = "m mod 2 ^ w"
  have r: "0 \<le> ?M" "?M < 2 ^ w" by simp_all
  have p: "(2::int) ^ w = 2 * 2 ^ k" by (simp add: w)
  have k: "w - 1 = k" by (simp add: w)
  show ?thesis
  proof (cases "(2::int) ^ w \<le> 2 * ?M")
    case True
    then have eq: "d = ?M - 2 ^ w" using mods_Inr(2)[OF d] by blast
    have "(?M - 2 ^ w) mod 2 ^ w = ?M"
      by (metis mod_diff_right_eq mod_self diff_zero mod_mod_trivial)
    moreover have "- (2 ^ k) \<le> ?M - 2 ^ w" using True p by linarith
    moreover have "?M - 2 ^ w \<le> 2 ^ k - 1"
    proof -
      have "?M - 2 ^ w < 0" using r by linarith
      moreover have "(0::int) < 2 ^ k" by simp
      ultimately show ?thesis by linarith
    qed
    ultimately show ?thesis unfolding eq k by blast
  next
    case False
    then have eq: "d = ?M" using mods_Inr(2)[OF d] by blast
    have "?M \<le> 2 ^ k - 1" using False p by linarith
    moreover have "- (2 ^ k) \<le> ?M"
    proof -
      have "(0::int) < 2 ^ k" by simp
      then show ?thesis using r by linarith
    qed
    moreover have "?M mod 2 ^ w = ?M" by simp
    ultimately show ?thesis unfolding eq k by blast
  qed
qed

lemma w_NAF_digits_width_1_diverges:
  assumes "w_NAF_digits w m i M = Some y"
  shows "w = 1 \<and> i = int (length M) \<longrightarrow> m \<le> 0"
proof (rule w_NAF_digits.raw_induct
    [where P = "\<lambda>w m i M y. w = 1 \<and> i = int (length M) \<longrightarrow> m \<le> 0", OF _ assms])
  fix f :: "nat \<Rightarrow> int \<Rightarrow> int \<Rightarrow> int list \<Rightarrow> (error + int list \<times> int) option"
  fix w m i M y
  assume IH: "\<And>w m i M y. f w m i M = Some y \<Longrightarrow> w = 1 \<and> i = int (length M) \<longrightarrow> m \<le> 0"
  assume body: "(if 0 < m
      then if m mod 2 = 1
           then case mods m w of Inl e \<Rightarrow> Some (Inl e)
                | Inr s \<Rightarrow>
                    let M' = M @ [s]
                    in case py_nth M' i of Inl e \<Rightarrow> Some (Inl e)
                       | Inr d \<Rightarrow> f w ((m - d) div 2) (i + 1) M'
           else f w (m div 2) (i + 1) (M @ [0])
      else Some (Inr (M, i))) = Some y"
  show "w = 1 \<and> i = int (length M) \<longrightarrow> m \<le> 0"
  proof (intro impI)
    assume h: "w = 1 \<and> i = int (length M)"
    show "m \<le> 0"
    proof (rule ccontr)
      assume "\<not> m \<le> 0"
      then have pos: "0 < m" by simp
      show False
      proof (cases "m mod 2 = 1")
        case True
        have d: "mods m w = Inr (- 1)" using True h by (subst mods_eq) simp
        have nth: "py_nth (M @ [- 1]) i = Inr (- 1)"
          using h by (simp add: py_nth_def Let_def)
        have "f w ((m - (- 1)) div 2) (i + 1) (M @ [- 1]) = Some y"
          using body pos True nth d by (simp add: Let_def)
        then have "(m - (- 1)) div 2 \<le> 0" using IH h by fastforce
        then show False using pos by linarith
      next
        case False
        have "f w (m div 2) (i + 1) (M @ [0]) = Some y"
          using body pos False by simp
        then have "m div 2 \<le> 0" using IH h by fastforce
        then show False using pos False by presburger
      qed
    qed
  qed
qed

lemma w_NAF_width_1_never_returns:
  assumes "0 < m" and "Q \<noteq> infj"
  shows "mult_jac_w_NAF infj m 1 Q ec = None"
proof -
  have "w_NAF_digits 1 m 0 [] = None"
  proof (cases "w_NAF_digits 1 m 0 []")
    case None
    then show ?thesis .
  next
    case (Some y)
    then show ?thesis using w_NAF_digits_width_1_diverges[OF Some] assms(1) by simp
  qed
  then show ?thesis using assms by (simp add: mult_jac_w_NAF_def)
qed

section \<open>Facts about the entry points\<close>

lemma scalar_arg_mod:
  "scalar_arg im (PyInt (m mod n ec)) ec = scalar_arg im (PyInt m) ec"
  by (simp add: scalar_arg_def)

lemma entry_points_mod:
  "mult_mont_ladder im (PyInt k) A ec = mult_mont_ladder im (PyInt (k mod n ec)) A ec"
  "mult_base_3 im (PyInt k) A ec = mult_base_3 im (PyInt (k mod n ec)) A ec"
  "mult_fixed_window im (PyInt k) W A ec = mult_fixed_window im (PyInt (k mod n ec)) W A ec"
  "mult_sliding_window im (PyInt k) W A ec = mult_sliding_window im (PyInt (k mod n ec)) W A ec"
  "mult_w_NAF im (PyInt k) W A ec = mult_w_NAF im (PyInt (k mod n ec)) W A ec"
  by (simp_all only: mult_mont_ladder_def mult_base_3_def mult_fixed_window_def
      mult_sliding_window_def mult_w_NAF_def scalar_arg_mod)

section \<open>Facts about ranges, indexing and loops\<close>

lemma py_range_nat: "py_range (int a) (int b) = map int [a..<b]"
proof (induction b)
  case 0
  show ?case by (simp add: py_range_def)
next
  case (Suc b)
  show ?case
  proof (cases "a \<le> b")
    case True
    have "[int a..int (Suc b) - 1] = [int a..int b - 1] @ [int b]"
      using True upto_rec2[of "int a" "int b"] by simp
    then show ?thesis using Suc True by (simp add: py_range_def)
  next
    case False
    then show ?thesis by (simp add: py_range_def)
  qed
qed

lemma py_range_0: "py_range 0 k = map int [0..<nat k]"
proof (cases "0 \<le> k")
  case True
  then show ?thesis using py_range_nat[of 0 "nat k"] by simp
next
  case False
  then show ?thesis by (simp add: py_range_def)
qed

lemma py_nth_in_range: "i < length xs \<Longrightarrow> py_nth xs (int i) = Inr (xs ! i)"
  by (simp add: py_nth_def Let_def)

lemma py_nth_in_range_int: "0 \<le> i \<Longrightarrow> i < int (length xs) \<Longrightarrow> py_nth xs i = Inr (xs ! nat i)"
  by (simp add: py_nth_def Let_def)

lemma foldE_append: "foldE f s (xs @ ys) = bindE (foldE f s xs) (\<lambda>s'. foldE f s' ys)"
proof (induction xs arbitrary: s)
  case Nil
  show ?case by simp
next
  case (Cons x xs)
  show ?case
  proof (cases "f s x")
    case (Inl e)
    then show ?thesis by simp
  next
    case (Inr s')
    then show ?thesis using Cons by simp
  qed
qed

lemma foldE_index:
  "\<forall>i\<in>set is. i < length M \<Longrightarrow>
   foldE (\<lambda>R i. bindE (py_nth M i) (h R)) R (map int is) = foldE h R (map ((!) M) is)"
proof (induction "is" arbitrary: R)
  case Nil
  show ?case by simp
next
  case (Cons i "is")
  have "py_nth M (int i) = Inr (M ! i)" using Cons.prems by (simp add: py_nth_in_range)
  then show ?case using Cons by (cases "h R (M ! i)") simp_all
qed

lemma map_nth_upt_drop: "map ((!) M) [a..<length M] = drop a M"
  by (simp add: list_eq_iff_nth_eq)

lemma map_nth_rev_upt: "map ((!) M) (rev [0..<length M]) = rev M"
  by (simp add: rev_map[symmetric] map_nth)

lemma doublings_ok:
  assumes gl: "group_law ec infj on pt" and R: "on R"
  shows "on (doublings ec k R) \<and> pt (doublings ec k R) = smul (2 ^ nat k) (pt R)"
proof -
  have add: "\<And>P Q. on P \<Longrightarrow> on Q \<Longrightarrow> on (add_jac ec P Q) \<and> pt (add_jac ec P Q) = pt P + pt Q"
    using gl by (simp add: group_law_def)
  have "on (foldl (\<lambda>R j. add_jac ec R R) R (map int [0..<j])) \<and>
        pt (foldl (\<lambda>R j. add_jac ec R R) R (map int [0..<j])) = smul (2 ^ j) (pt R)" for j
  proof (induction j)
    case 0
    show ?case using R by simp
  next
    case (Suc j)
    let ?R = "foldl (\<lambda>R j. add_jac ec R R) R (map int [0..<j])"
    have "pt (add_jac ec ?R ?R) = smul (2 * 2 ^ j) (pt R)"
      using add[of ?R ?R] Suc by (simp only: smul_double)
    then show ?case using add[of ?R ?R] Suc by simp
  qed
  then show ?thesis by (simp add: doublings_def py_range_0)
qed

lemma build_table_fold:
  assumes gl: "group_law ec infj on pt" and F: "on first" and X: "on X"
  shows "\<exists>T. foldE (table_step ec X) [first] (map int [1..<Suc k]) = Inr T \<and> length T = Suc k \<and>
             T ! 0 = first \<and>
             (\<forall>i<Suc k. on (T ! i) \<and> pt (T ! i) = pt first + smul (int i) (pt X)) \<and>
             (\<forall>i. 0 < i \<and> i < Suc k \<longrightarrow> T ! i = add_jac ec (T ! (i - 1)) X)"
proof (induction k)
  case 0
  show ?case using F by simp
next
  case (Suc k)
  have add: "\<And>P Q. on P \<Longrightarrow> on Q \<Longrightarrow> on (add_jac ec P Q) \<and> pt (add_jac ec P Q) = pt P + pt Q"
    using gl by (simp add: group_law_def)
  obtain T where T: "foldE (table_step ec X) [first] (map int [1..<Suc k]) = Inr T"
    and len: "length T = Suc k" and T0: "T ! 0 = first"
    and ent: "\<forall>i<Suc k. on (T ! i) \<and> pt (T ! i) = pt first + smul (int i) (pt X)"
    and chain: "\<forall>i. 0 < i \<and> i < Suc k \<longrightarrow> T ! i = add_jac ec (T ! (i - 1)) X"
    using Suc by (elim exE conjE)
  let ?P = "add_jac ec (T ! k) X"
  let ?T = "T @ [?P]"
  have nth: "py_nth T (int (Suc k) - 1) = Inr (T ! k)"
    using py_nth_in_range[of k T] len by simp
  have step: "table_step ec X T (int (Suc k)) = Inr ?T"
    unfolding table_step_def nth by simp
  have "[1..<Suc (Suc k)] = [1..<Suc k] @ [Suc k]" by simp
  then have fold: "foldE (table_step ec X) [first] (map int [1..<Suc (Suc k)]) = Inr ?T"
    using T step by (simp only: map_append foldE_append) simp
  have Tk: "on (T ! k)" "pt (T ! k) = pt first + smul (int k) (pt X)" using ent by simp_all
  have P: "on ?P" "pt ?P = pt first + smul (int (Suc k)) (pt X)"
  proof -
    show "on ?P" using add Tk(1) X by simp
    have "int (Suc k) = int k + 1" by simp
    then show "pt ?P = pt first + smul (int (Suc k)) (pt X)"
      using add[OF Tk(1) X] Tk(2) by (simp only: smul_add smul_1 add.assoc)
  qed
  have ent': "\<forall>i<Suc (Suc k). on (?T ! i) \<and> pt (?T ! i) = pt first + smul (int i) (pt X)"
  proof (intro allI impI)
    fix i assume "i < Suc (Suc k)"
    then consider "i < Suc k" | "i = Suc k" by linarith
    then show "on (?T ! i) \<and> pt (?T ! i) = pt first + smul (int i) (pt X)"
    proof cases
      case 1
      then show ?thesis using ent len by (simp add: nth_append)
    next
      case 2
      then show ?thesis using P len by (simp add: nth_append)
    qed
  qed
  have chain': "\<forall>i. 0 < i \<and> i < Suc (Suc k) \<longrightarrow> ?T ! i = add_jac ec (?T ! (i - 1)) X"
  proof (intro allI impI)
    fix i assume i: "0 < i \<and> i < Suc (Suc k)"
    then have "i < Suc (Suc k)" by simp
    then consider "i < Suc k" | "i = Suc k" by linarith
    then show "?T ! i = add_jac ec (?T ! (i - 1)) X"
    proof cases
      case 1
      have "T ! i = add_jac ec (T ! (i - 1)) X" using chain i 1 by blast
      moreover have "i - 1 < length T" "i < length T" using 1 len by simp_all
      then have "?T ! i = T ! i" "?T ! (i - 1) = T ! (i - 1)"
        by (simp_all only: nth_append if_True)
      ultimately show ?thesis by (simp only:)
    next
      case 2
      then show ?thesis using len by (simp add: nth_append)
    qed
  qed
  have len': "length ?T = Suc (Suc k)" using len by simp
  have T0': "?T ! 0 = first" using T0 len by (simp add: nth_append)
  show ?case
    by (rule exI[of _ ?T]) (intro conjI fold len' T0' ent' chain')
qed

lemma build_table_ok:
  assumes gl: "group_law ec infj on pt" and F: "on first" and X: "on X" and b: "1 \<le> b"
  shows "\<exists>T. build_table ec first X b = Inr T \<and> length T = nat b \<and>
             T ! 0 = first \<and>
             (\<forall>i<nat b. on (T ! i) \<and> pt (T ! i) = pt first + smul (int i) (pt X)) \<and>
             (\<forall>i. 0 < i \<and> i < nat b \<longrightarrow> T ! i = add_jac ec (T ! (i - 1)) X)"
proof -
  obtain k where k: "nat b = Suc k" using b by (cases "nat b") auto
  then have "b = int (Suc k)" using b by linarith
  then have "py_range 1 b = map int [1..<Suc k]"
    using py_range_nat[of 1 "Suc k"] by simp
  then have "build_table ec first X b = foldE (table_step ec X) [first] (map int [1..<Suc k])"
    by (simp only: build_table_def)
  then show ?thesis
    using build_table_fold[OF gl F X, of k] unfolding k by (simp only:)
qed

section \<open>Facts about the radix decomposition\<close>

lemma digits_val_snoc: "digits_val b v (ds @ [d]) = b * digits_val b v ds + d"
  by (simp add: digits_val_def)

lemma numberToBase_loop_ok:
  assumes b: "2 \<le> b"
  shows "0 \<le> k \<Longrightarrow>
         \<exists>ds. numberToBase_loop k b acc = Some (Inr (acc @ ds)) \<and>
              (\<forall>d\<in>set ds. 0 \<le> d \<and> d < b) \<and> digits_val b 0 (rev ds) = k \<and>
              (0 < k \<longrightarrow> ds \<noteq> [])"
proof (induction "nat k" arbitrary: k acc rule: less_induct)
  case less
  show ?case
  proof (cases "k = 0")
    case True
    have "numberToBase_loop k b acc = Some (Inr (acc @ []))"
      using True by (subst numberToBase_loop.simps) simp
    then show ?thesis using True by (intro exI[of _ "[]"]) simp
  next
    case False
    then have pos: "0 < k" using less.prems by simp
    have lt: "nat (k div b) < nat k"
    proof -
      have "k div b < k" using pos b by (simp add: int_div_less_self)
      then show ?thesis using pos by linarith
    qed
    have nn: "0 \<le> k div b" using pos b by (simp add: pos_imp_zdiv_nonneg_iff)
    obtain ds where ds: "numberToBase_loop (k div b) b (acc @ [k mod b]) = Some (Inr ((acc @ [k mod b]) @ ds))"
      and rng: "\<forall>d\<in>set ds. 0 \<le> d \<and> d < b" and val: "digits_val b 0 (rev ds) = k div b"
      using less.hyps[OF lt nn, of "acc @ [k mod b]"] by (elim exE conjE)
    have bne: "b \<noteq> 0" using b by simp
    have "numberToBase_loop k b acc = numberToBase_loop (k div b) b (acc @ [k mod b])"
      using False bne by (subst numberToBase_loop.simps) simp
    then have r: "numberToBase_loop k b acc = Some (Inr (acc @ (k mod b # ds)))"
      using ds by simp
    have m: "0 \<le> k mod b" "k mod b < b" using b by simp_all
    have v: "digits_val b 0 (rev (k mod b # ds)) = k"
      using val by (simp add: digits_val_snoc)
    show ?thesis
      by (rule exI[of _ "k mod b # ds"]) (use r rng m v in simp)
  qed
qed

lemma numberToBase_ok:
  assumes "2 \<le> b" and "0 \<le> k"
  shows "\<exists>M. numberToBase k b = Some (Inr M) \<and> M \<noteq> [] \<and>
             (\<forall>d\<in>set M. 0 \<le> d \<and> d < b) \<and> digits_val b 0 M = k"
proof (cases "k = 0")
  case True
  then show ?thesis using assms(1) by (simp add: numberToBase_def)
next
  case False
  then have pos: "0 < k" using assms(2) by simp
  obtain ds where ds: "numberToBase_loop k b [] = Some (Inr ([] @ ds))"
    and rng: "\<forall>d\<in>set ds. 0 \<le> d \<and> d < b" and val: "digits_val b 0 (rev ds) = k"
    and ne: "0 < k \<longrightarrow> ds \<noteq> []"
    using numberToBase_loop_ok[OF assms, of "[]"] by (elim exE conjE)
  have "numberToBase k b = Some (Inr (rev ds))"
    using False ds by (simp add: numberToBase_def)
  then show ?thesis using rng val ne pos by simp
qed

text \<open>A loop that multiplies the accumulator by the radix and adds a table entry.\<close>

lemma radix_loop_ok:
  assumes gl: "group_law ec infj on pt"
    and mul: "\<And>R. on R \<Longrightarrow> on (mulb R) \<and> pt (mulb R) = smul b (pt R)"
    and tab: "\<And>d. 0 \<le> d \<Longrightarrow> d < b \<Longrightarrow> \<exists>P. py_nth T d = Inr P \<and> on P \<and> pt P = smul d g"
  shows "on R \<Longrightarrow> pt R = smul v g \<Longrightarrow> \<forall>d\<in>set ds. 0 \<le> d \<and> d < b \<Longrightarrow>
         \<exists>R'. foldE (\<lambda>R d. bindE (py_nth T d) (\<lambda>P. Inr (add_jac ec (mulb R) P))) R ds = Inr R' \<and>
              on R' \<and> pt R' = smul (digits_val b v ds) g"
proof (induction ds arbitrary: R v)
  case Nil
  then show ?case by simp
next
  case (Cons d ds)
  have add: "\<And>P Q. on P \<Longrightarrow> on Q \<Longrightarrow> on (add_jac ec P Q) \<and> pt (add_jac ec P Q) = pt P + pt Q"
    using gl by (simp add: group_law_def)
  obtain P where P: "py_nth T d = Inr P" "on P" "pt P = smul d g"
    using tab[of d] Cons.prems(3) by auto
  let ?R = "add_jac ec (mulb R) P"
  have m: "on (mulb R)" "pt (mulb R) = smul b (pt R)" using mul[OF Cons.prems(1)] by simp_all
  have onR: "on ?R" using add m(1) P(2) by simp
  have "pt ?R = smul b (smul v g) + smul d g"
    using add[OF m(1) P(2)] m(2) P(3) Cons.prems(2) by simp
  then have ptR: "pt ?R = smul (b * v + d) g"
    by (simp only: smul_add smul_mult)
  have rest: "\<forall>d\<in>set ds. 0 \<le> d \<and> d < b" using Cons.prems(3) by simp
  obtain R' where R': "foldE (\<lambda>R d. bindE (py_nth T d) (\<lambda>P. Inr (add_jac ec (mulb R) P))) ?R ds = Inr R'"
     "on R'" "pt R' = smul (digits_val b (b * v + d) ds) g"
    using Cons.IH[OF onR ptR rest] by (elim exE conjE)
  show ?case
    by (rule exI[of _ R']) (use R' P(1) in simp)
qed

lemma table_lookup:
  assumes "length T = nat b" and "\<forall>i<nat b. on (T ! i) \<and> pt (T ! i) = z + smul (int i) g"
    and "0 \<le> d" and "d < b"
  shows "\<exists>P. py_nth T d = Inr P \<and> on P \<and> pt P = z + smul d g"
proof -
  have "nat d < nat b" using assms(3,4) by simp
  then have "on (T ! nat d) \<and> pt (T ! nat d) = z + smul (int (nat d)) g"
    using assms(2) by blast
  moreover have "py_nth T d = Inr (T ! nat d)"
    using assms(1,3,4) by (simp add: py_nth_in_range_int)
  ultimately show ?thesis using assms(3) by simp
qed

lemma index_loop_drop:
  "foldE (\<lambda>R i. bindE (py_nth M i) (h R)) R (py_range (int a) (int (length M))) = foldE h R (drop a M)"
proof -
  have "\<forall>i\<in>set [a..<length M]. i < length M" by simp
  then show ?thesis
    using foldE_index[of "[a..<length M]" M h R]
    by (simp only: py_range_nat map_nth_upt_drop)
qed


section \<open>Correctness of the radix-3 and fixed-window engines\<close>

lemma base_3_correct:
  assumes gl: "group_law ec infj on pt" and m: "0 \<le> m" and Q: "on Q"
  shows "\<exists>R. mult_jac_base_3 infj m Q ec = Some (Inr R) \<and> on R \<and> pt R = smul m (pt Q)"
proof (cases "Q = infj")
  case True
  then have "pt Q = 0" using gl by (simp add: group_law_def)
  then show ?thesis using True m Q by (simp add: mult_jac_base_3_def)
next
  case False
  have add: "\<And>P Q. on P \<Longrightarrow> on Q \<Longrightarrow> on (add_jac ec P Q) \<and> pt (add_jac ec P Q) = pt P + pt Q"
    using gl by (simp add: group_law_def)
  have inf: "on infj" "pt infj = 0" using gl by (simp_all add: group_law_def)
  obtain T where T: "build_table ec infj Q 3 = Inr T" and len: "length T = nat 3"
    and ent: "\<forall>i<nat 3. on (T ! i) \<and> pt (T ! i) = pt infj + smul (int i) (pt Q)"
    using build_table_ok[OF gl inf(1) Q, of 3] by auto
  obtain M where M: "numberToBase m 3 = Some (Inr M)" and ne: "M \<noteq> []"
    and rng: "\<forall>d\<in>set M. 0 \<le> d \<and> d < 3" and val: "digits_val 3 0 M = m"
    using numberToBase_ok[of 3 m] m by auto
  have tab: "\<exists>P. py_nth T d = Inr P \<and> on P \<and> pt P = smul d (pt Q)" if "0 \<le> d" "d < 3" for d
    using table_lookup[OF len ent that] inf(2) by simp
  have mul: "on (add_jac ec (add_jac ec R R) R) \<and> pt (add_jac ec (add_jac ec R R) R) = smul 3 (pt R)"
    if "on R" for R
  proof -
    have "smul 3 (pt R) = smul (1 + 1 + 1) (pt R)" by simp
    also have "\<dots> = pt R + pt R + pt R" by (simp only: smul_add smul_1)
    finally show ?thesis using add that by simp
  qed
  obtain d0 ds where Mc: "M = d0 # ds" using ne by (cases M) auto
  have d0: "0 \<le> d0" "d0 < 3" using rng Mc by simp_all
  obtain R0 where R0: "py_nth T d0 = Inr R0" "on R0" "pt R0 = smul d0 (pt Q)"
    using tab[OF d0] by auto
  have step: "base_3_step ec T M = (\<lambda>R i. bindE (py_nth M i)
        (\<lambda>d. bindE (py_nth T d) (\<lambda>P. Inr (add_jac ec (add_jac ec (add_jac ec R R) R) P))))"
    by (intro ext) (simp add: base_3_step_def Let_def)
  have loop: "foldE (base_3_step ec T M) R0 (py_range 1 (int (length M))) =
        foldE (\<lambda>R d. bindE (py_nth T d) (\<lambda>P. Inr (add_jac ec (add_jac ec (add_jac ec R R) R) P))) R0 ds"
    unfolding step using index_loop_drop[of M _ R0 1] Mc by simp
  have rds: "\<forall>d\<in>set ds. 0 \<le> d \<and> d < 3" using rng Mc by simp
  have "\<exists>R'. foldE (\<lambda>R d. bindE (py_nth T d) (\<lambda>P. Inr (add_jac ec (add_jac ec (add_jac ec R R) R) P))) R0 ds = Inr R' \<and>
          on R' \<and> pt R' = smul (digits_val 3 d0 ds) (pt Q)"
  proof (rule radix_loop_ok[OF gl, where b = 3 and g = "pt Q"])
    show "on (add_jac ec (add_jac ec R R) R) \<and> pt (add_jac ec (add_jac ec R R) R) = smul 3 (pt R)"
      if "on R" for R using mul that by blast
    show "\<exists>P. py_nth T d = Inr P \<and> on P \<and> pt P = smul d (pt Q)" if "0 \<le> d" "d < 3" for d
      using tab that by blast
    show "on R0" by (rule R0(2))
    show "pt R0 = smul d0 (pt Q)" by (rule R0(3))
    show "\<forall>d\<in>set ds. 0 \<le> d \<and> d < 3" by (rule rds)
  qed
  then obtain R' where R': "foldE (\<lambda>R d. bindE (py_nth T d) (\<lambda>P. Inr (add_jac ec (add_jac ec (add_jac ec R R) R) P))) R0 ds = Inr R'"
    "on R'" "pt R' = smul (digits_val 3 d0 ds) (pt Q)"
    by (elim exE conjE)
  have "digits_val 3 d0 ds = m" using val Mc by simp
  moreover have "mult_jac_base_3 infj m Q ec = Some (Inr R')"
    using False m T M Mc R0(1) loop R'(1)
    by (simp add: mult_jac_base_3_def py_nth_def)
  ultimately show ?thesis using R'(2,3) by simp
qed

lemma fixed_window_correct:
  assumes gl: "group_law ec infj on pt" and m: "0 \<le> m" and Q: "on Q" and w: "1 \<le> w"
  shows "\<exists>R. mult_jac_fixed_window infj m w Q ec = Some (Inr R) \<and> on R \<and> pt R = smul m (pt Q)"
proof (cases "Q = infj")
  case True
  then have "pt Q = 0" using gl by (simp add: group_law_def)
  then show ?thesis using True m Q by (simp add: mult_jac_fixed_window_def)
next
  case False
  define b :: int where "b = 2 ^ nat w"
  have b2: "2 \<le> b"
  proof -
    obtain k where "nat w = Suc k" using w by (cases "nat w") auto
    then have "b = 2 * 2 ^ k" by (simp add: b_def)
    moreover have "(1::int) \<le> 2 ^ k" by simp
    ultimately show ?thesis by linarith
  qed
  have inf: "on infj" "pt infj = 0" using gl by (simp_all add: group_law_def)
  obtain T where T: "build_table ec infj Q b = Inr T" and len: "length T = nat b"
    and ent: "\<forall>i<nat b. on (T ! i) \<and> pt (T ! i) = pt infj + smul (int i) (pt Q)"
    using build_table_ok[OF gl inf(1) Q, of b] b2 by auto
  obtain M where M: "numberToBase m b = Some (Inr M)" and ne: "M \<noteq> []"
    and rng: "\<forall>d\<in>set M. 0 \<le> d \<and> d < b" and val: "digits_val b 0 M = m"
    using numberToBase_ok[OF b2 m] by auto
  have tab: "\<exists>P. py_nth T d = Inr P \<and> on P \<and> pt P = smul d (pt Q)" if "0 \<le> d" "d < b" for d
    using table_lookup[OF len ent that] inf(2) by simp
  have mul: "on (doublings ec w R) \<and> pt (doublings ec w R) = smul b (pt R)" if "on R" for R
    using doublings_ok[OF gl that, of w] by (simp add: b_def)
  obtain d0 ds where Mc: "M = d0 # ds" using ne by (cases M) auto
  have d0: "0 \<le> d0" "d0 < b" using rng Mc by simp_all
  obtain R0 where R0: "py_nth T d0 = Inr R0" "on R0" "pt R0 = smul d0 (pt Q)"
    using tab[OF d0] by auto
  have step: "fixed_window_step ec w T M = (\<lambda>R i. bindE (py_nth M i)
        (\<lambda>d. bindE (py_nth T d) (\<lambda>P. Inr (add_jac ec (doublings ec w R) P))))"
    by (intro ext) (simp add: fixed_window_step_def Let_def)
  have loop: "foldE (fixed_window_step ec w T M) R0 (py_range 1 (int (length M))) =
        foldE (\<lambda>R d. bindE (py_nth T d) (\<lambda>P. Inr (add_jac ec (doublings ec w R) P))) R0 ds"
    unfolding step using index_loop_drop[of M _ R0 1] Mc by simp
  have rds: "\<forall>d\<in>set ds. 0 \<le> d \<and> d < b" using rng Mc by simp
  have "\<exists>R'. foldE (\<lambda>R d. bindE (py_nth T d) (\<lambda>P. Inr (add_jac ec (doublings ec w R) P))) R0 ds = Inr R' \<and>
          on R' \<and> pt R' = smul (digits_val b d0 ds) (pt Q)"
  proof (rule radix_loop_ok[OF gl, where b = b and g = "pt Q"])
    show "on (doublings ec w R) \<and> pt (doublings ec w R) = smul b (pt R)"
      if "on R" for R using mul that by blast
    show "\<exists>P. py_nth T d = Inr P \<and> on P \<and> pt P = smul d (pt Q)" if "0 \<le> d" "d < b" for d
      using tab that by blast
    show "on R0" by (rule R0(2))
    show "pt R0 = smul d0 (pt Q)" by (rule R0(3))
    show "\<forall>d\<in>set ds. 0 \<le> d \<and> d < b" by (rule rds)
  qed
  then obtain R' where R': "foldE (\<lambda>R d. bindE (py_nth T d) (\<lambda>P. Inr (add_jac ec (doublings ec w R) P))) R0 ds = Inr R'"
    "on R'" "pt R' = smul (digits_val b d0 ds) (pt Q)"
    by (elim exE conjE)
  have "digits_val b d0 ds = m" using val Mc by simp
  moreover have "mult_jac_fixed_window infj m w Q ec = Some (Inr R')"
    using False m w T M Mc R0(1) loop R'(1)
    by (simp add: mult_jac_fixed_window_def py_nth_def Let_def b_def[symmetric])
  ultimately show ?thesis using R'(2,3) by simp
qed


section \<open>Facts about the sliding-window engine\<close>

lemma sliding_window_table_ok:
  assumes gl: "group_law ec infj on pt" and Q: "on Q" and w: "1 \<le> w"
  shows "\<exists>T. sliding_window_table ec w Q = Inr T \<and> length T = 2 ^ nat (w - 1) \<and>
             T ! 0 = doublings ec (w - 1) Q \<and>
             (\<forall>i<length T. on (T ! i) \<and> pt (T ! i) = smul (2 ^ nat (w - 1) + int i) (pt Q)) \<and>
             (\<forall>i. 0 < i \<and> i < length T \<longrightarrow> T ! i = add_jac ec (T ! (i - 1)) Q)"
proof -
  define p :: int where "p = 2 ^ nat (w - 1)"
  let ?P = "doublings ec (w - 1) Q"
  have P: "on ?P" "pt ?P = smul p (pt Q)"
    using doublings_ok[OF gl Q, of "w - 1"] by (simp_all add: p_def)
  have p1: "1 \<le> p" by (simp add: p_def)
  have np: "nat p = 2 ^ nat (w - 1)" by (simp add: p_def nat_power_eq)
  obtain T where T: "build_table ec ?P Q p = Inr T" and len: "length T = nat p"
    and T0: "T ! 0 = ?P"
    and ent: "\<forall>i<nat p. on (T ! i) \<and> pt (T ! i) = pt ?P + smul (int i) (pt Q)"
    and chain: "\<forall>i. 0 < i \<and> i < nat p \<longrightarrow> T ! i = add_jac ec (T ! (i - 1)) Q"
    using build_table_ok[OF gl P(1) Q p1] by (elim exE conjE)
  have tab: "sliding_window_table ec w Q = Inr T"
    using T by (simp add: sliding_window_table_def Let_def p_def)
  have ent': "\<forall>i<length T. on (T ! i) \<and> pt (T ! i) = smul (2 ^ nat (w - 1) + int i) (pt Q)"
  proof (intro allI impI)
    fix i assume "i < length T"
    then have "on (T ! i) \<and> pt (T ! i) = pt ?P + smul (int i) (pt Q)" using ent len by simp
    then show "on (T ! i) \<and> pt (T ! i) = smul (2 ^ nat (w - 1) + int i) (pt Q)"
      using P(2) by (simp only: smul_add p_def)
  qed
  have len': "length T = 2 ^ nat (w - 1)" using len np by simp
  have chain': "\<forall>i. 0 < i \<and> i < length T \<longrightarrow> T ! i = add_jac ec (T ! (i - 1)) Q"
    using chain len by simp
  show ?thesis
    by (rule exI[of _ T]) (intro conjI tab len' T0 ent' chain')
qed

lemma digits_val_shift: "digits_val b v ds = b ^ length ds * v + digits_val b 0 ds"
proof (induction ds arbitrary: v rule: rev_induct)
  case Nil
  show ?case by simp
next
  case (snoc d ds)
  show ?case
    unfolding digits_val_snoc by (subst snoc) (simp add: algebra_simps)
qed

lemma bits_val_bounds:
  "\<forall>d\<in>set ds. d = 0 \<or> d = 1 \<Longrightarrow> 0 \<le> digits_val 2 0 ds \<and> digits_val 2 0 ds < 2 ^ length ds"
proof (induction ds rule: rev_induct)
  case Nil
  show ?case by simp
next
  case (snoc d ds)
  then have ih: "0 \<le> digits_val 2 0 ds" "digits_val 2 0 ds < 2 ^ length ds" by simp_all
  have d: "d = 0 \<or> d = 1" using snoc.prems by simp
  have "digits_val 2 0 (ds @ [d]) = 2 * digits_val 2 0 ds + d" by (rule digits_val_snoc)
  moreover have "(2::int) ^ length (ds @ [d]) = 2 * 2 ^ length ds" by simp
  ultimately show ?case using ih d by auto
qed

lemma window_value_fold:
  "i + Suc k \<le> length M \<Longrightarrow>
   foldE (\<lambda>t a. bindE (py_nth M (int i + a)) (\<lambda>d. Inr (2 * t + d))) (M ! i) (map int [1..<Suc k])
     = Inr (digits_val 2 0 (take (Suc k) (drop i M)))"
proof (induction k)
  case 0
  then have "take (Suc 0) (drop i M) = [M ! i]"
    by (simp add: take_Suc_conv_app_nth)
  then show ?case by simp
next
  case (Suc k)
  have ih: "foldE (\<lambda>t a. bindE (py_nth M (int i + a)) (\<lambda>d. Inr (2 * t + d))) (M ! i) (map int [1..<Suc k])
     = Inr (digits_val 2 0 (take (Suc k) (drop i M)))"
    using Suc by simp
  have lt: "i + Suc k < length M" using Suc.prems by simp
  have "int (i + Suc k) = int i + int (Suc k)" by simp
  then have nth: "py_nth M (int i + int (Suc k)) = Inr (M ! (i + Suc k))"
    using py_nth_in_range[OF lt] by (simp only:)
  have tk: "take (Suc (Suc k)) (drop i M) = take (Suc k) (drop i M) @ [M ! (i + Suc k)]"
    using lt by (simp add: take_Suc_conv_app_nth)
  have "[1..<Suc (Suc k)] = [1..<Suc k] @ [Suc k]" by simp
  then have "foldE (\<lambda>t a. bindE (py_nth M (int i + a)) (\<lambda>d. Inr (2 * t + d))) (M ! i) (map int [1..<Suc (Suc k)])
     = bindE (Inr (digits_val 2 0 (take (Suc k) (drop i M))))
         (\<lambda>t. foldE (\<lambda>t a. bindE (py_nth M (int i + a)) (\<lambda>d. Inr (2 * t + d))) t [int (Suc k)])"
    using ih by (simp only: map_append foldE_append list.map)
  also have "\<dots> = Inr (2 * digits_val 2 0 (take (Suc k) (drop i M)) + M ! (i + Suc k))"
    using nth by simp
  finally show ?case unfolding tk digits_val_snoc .
qed

lemma window_value_ok:
  assumes "1 \<le> j" and "int i + j \<le> int (length M)"
  shows "window_value M (int i) j = Inr (digits_val 2 0 (take (nat j) (drop i M)))"
proof -
  obtain k where k: "nat j = Suc k" using assms(1) by (cases "nat j") auto
  then have j: "j = int (Suc k)" using assms(1) by linarith
  have le: "i + Suc k \<le> length M" using assms(2) j by linarith
  then have "i < length M" by simp
  then have nth: "py_nth M (int i) = Inr (M ! i)" by (rule py_nth_in_range)
  have "py_range 1 j = map int [1..<Suc k]" using py_range_nat[of 1 "Suc k"] j by simp
  then show ?thesis
    unfolding window_value_def nth k using window_value_fold[OF le] by simp
qed

lemma short_window_loop_ok:
  assumes gl: "group_law ec infj on pt" and Q: "on Q"
  shows "on R \<Longrightarrow> pt R = smul v (pt Q) \<Longrightarrow> \<forall>d\<in>set ds. d = 0 \<or> d = 1 \<Longrightarrow>
         \<exists>R'. foldE (\<lambda>R d. Inr (if d = 1 then add_jac ec (add_jac ec R R) Q else add_jac ec R R)) R ds = Inr R' \<and>
              on R' \<and> pt R' = smul (digits_val 2 v ds) (pt Q)"
proof (induction ds arbitrary: R v)
  case Nil
  then show ?case by simp
next
  case (Cons d ds)
  have add: "\<And>P Q. on P \<Longrightarrow> on Q \<Longrightarrow> on (add_jac ec P Q) \<and> pt (add_jac ec P Q) = pt P + pt Q"
    using gl by (simp add: group_law_def)
  let ?D = "add_jac ec R R"
  let ?R = "if d = 1 then add_jac ec ?D Q else ?D"
  have D: "on ?D" "pt ?D = smul (2 * v) (pt Q)"
    using add[OF Cons.prems(1) Cons.prems(1)] Cons.prems(2) by (simp_all only: smul_double)
  have d: "d = 0 \<or> d = 1" using Cons.prems(3) by simp
  have R: "on ?R \<and> pt ?R = smul (2 * v + d) (pt Q)"
  proof (cases "d = 1")
    case True
    have "pt (add_jac ec ?D Q) = smul (2 * v) (pt Q) + smul 1 (pt Q)"
      using add[OF D(1) Q] D(2) by simp
    then have "pt (add_jac ec ?D Q) = smul (2 * v + 1) (pt Q)" by (simp only: smul_add)
    then show ?thesis using True add[OF D(1) Q] by simp
  next
    case False
    then have "d = 0" using d by simp
    then show ?thesis using D by simp
  qed
  have rest: "\<forall>d\<in>set ds. d = 0 \<or> d = 1" using Cons.prems(3) by simp
  obtain R' where R': "foldE (\<lambda>R d. Inr (if d = 1 then add_jac ec (add_jac ec R R) Q else add_jac ec R R)) ?R ds = Inr R'"
    "on R'" "pt R' = smul (digits_val 2 (2 * v + d) ds) (pt Q)"
    using Cons.IH[of ?R "2 * v + d"] R rest by blast
  show ?case
    by (rule exI[of _ R']) (use R' in simp)
qed

lemma short_window_tail:
  assumes gl: "group_law ec infj on pt" and Q: "on Q"
    and R: "on R" "pt R = smul v (pt Q)" and bits: "\<forall>d\<in>set M. d = 0 \<or> d = 1"
  shows "\<exists>R'. foldE (short_window_step ec Q M) R (py_range (int i) (int (length M))) = Inr R' \<and>
              on R' \<and> pt R' = smul (digits_val 2 v (drop i M)) (pt Q)"
proof -
  have step: "short_window_step ec Q M = (\<lambda>R b. bindE (py_nth M b)
        (\<lambda>d. Inr (if d = 1 then add_jac ec (add_jac ec R R) Q else add_jac ec R R)))"
    by (intro ext) (simp add: short_window_step_def Let_def)
  have "\<forall>d\<in>set (drop i M). d = 0 \<or> d = 1" using bits by (meson in_set_dropD)
  then show ?thesis
    unfolding step index_loop_drop
    using short_window_loop_ok[OF gl Q R] by blast
qed

lemma sliding_window_loop_window:
  assumes "i < int (length M)" and "py_nth M i = Inr d" and "d \<noteq> 0"
    and "j = (if int (length M) - i < w then int (length M) - i else w)"
    and "window_value M i j = Inr t"
  shows "sliding_window_loop ec Q w p T M i R =
           (if j < w then Some (foldE (short_window_step ec Q M) R (py_range i (i + j)))
            else (case py_nth T (t - p) of
                    Inl e \<Rightarrow> Some (Inl e)
                  | Inr P \<Rightarrow> sliding_window_loop ec Q w p T M (i + j)
                             (add_jac ec (doublings ec w R) P)))"
  using assms(1,2,3,5) unfolding assms(4)
  by (subst sliding_window_loop.simps) (simp add: Let_def)

lemma sliding_window_loop_ok:
  assumes gl: "group_law ec infj on pt" and Q: "on Q" and w: "1 \<le> w"
    and p: "p = 2 ^ nat (w - 1)"
    and len: "length T = 2 ^ nat (w - 1)"
    and ent: "\<forall>i<length T. on (T ! i) \<and> pt (T ! i) = smul (2 ^ nat (w - 1) + int i) (pt Q)"
    and bits: "\<forall>d\<in>set M. d = 0 \<or> d = 1"
  shows "on R \<Longrightarrow> pt R = smul v (pt Q) \<Longrightarrow> i \<le> length M \<Longrightarrow>
         \<exists>R'. sliding_window_loop ec Q w p T M (int i) R = Some (Inr R') \<and>
              on R' \<and> pt R' = smul (digits_val 2 v (drop i M)) (pt Q)"
proof (induction "length M - i" arbitrary: i R v rule: less_induct)
  case less
  have add: "\<And>P Q. on P \<Longrightarrow> on Q \<Longrightarrow> on (add_jac ec P Q) \<and> pt (add_jac ec P Q) = pt P + pt Q"
    using gl by (simp add: group_law_def)
  show ?case
  proof (cases "i = length M")
    case True
    have "sliding_window_loop ec Q w p T M (int i) R = Some (Inr R)"
      using True by (subst sliding_window_loop.simps) simp
    then show ?thesis using True less.prems by simp
  next
    case False
    then have lt: "i < length M" using less.prems(3) by simp
    have nth: "py_nth M (int i) = Inr (M ! i)" using lt by (rule py_nth_in_range)
    have dr: "drop i M = M ! i # drop (Suc i) M" using lt by (simp add: Cons_nth_drop_Suc)
    have bit: "M ! i = 0 \<or> M ! i = 1" using bits lt by simp
    show ?thesis
    proof (cases "M ! i = 0")
      case True
      let ?R = "add_jac ec R R"
      have R2: "on ?R" "pt ?R = smul (2 * v + 0) (pt Q)"
      proof -
        show "on ?R" using add[OF less.prems(1) less.prems(1)] by simp
        have "pt ?R = smul (2 * v) (pt Q)"
          using add[OF less.prems(1) less.prems(1)] less.prems(2) by (simp only: smul_double)
        then show "pt ?R = smul (2 * v + 0) (pt Q)" by simp
      qed
      obtain R' where R': "sliding_window_loop ec Q w p T M (int (Suc i)) ?R = Some (Inr R')"
        "on R'" "pt R' = smul (digits_val 2 (2 * v + 0) (drop (Suc i) M)) (pt Q)"
      proof -
        have meas0: "length M - Suc i < length M - i" and le: "Suc i \<le> length M"
          using lt by simp_all
        show ?thesis using less.hyps[OF meas0 R2 le] that by blast
      qed
      have "int (Suc i) = int i + 1" by simp
      then have "sliding_window_loop ec Q w p T M (int i + 1) ?R = Some (Inr R')"
        using R'(1) by (simp only:)
      then have "sliding_window_loop ec Q w p T M (int i) R = Some (Inr R')"
        using lt nth True by (subst sliding_window_loop.simps) simp
      moreover have "digits_val 2 v (drop i M) = digits_val 2 (2 * v + 0) (drop (Suc i) M)"
        using dr True by simp
      ultimately show ?thesis using R'(2,3) by simp
    next
      case False
      then have one: "M ! i = 1" using bit by simp
      define r where "r = length M - i"
      have r: "int r = int (length M) - int i" "0 < r" using lt by (simp_all add: r_def)
      define j where "j = (if int (length M) - int i < w then int (length M) - int i else w)"
      have j1: "1 \<le> j" using w r by (simp add: j_def)
      have jle: "int i + j \<le> int (length M)" using r by (simp add: j_def)
      have wv: "window_value M (int i) j = Inr (digits_val 2 0 (take (nat j) (drop i M)))"
        using window_value_ok[OF j1 jle] .
      show ?thesis
      proof (cases "j < w")
        case True
        then have jr: "j = int (length M) - int i" by (simp add: j_def split: if_splits)
        then have "int i + j = int (length M)" by simp
        then have unfold: "sliding_window_loop ec Q w p T M (int i) R =
            Some (foldE (short_window_step ec Q M) R (py_range (int i) (int (length M))))"
          using sliding_window_loop_window[of "int i" M 1 j w "digits_val 2 0 (take (nat j) (drop i M))" ec Q p T R]
            lt nth one wv True j_def by simp
        show ?thesis
          unfolding unfold
          using short_window_tail[OF gl Q less.prems(1,2) bits, of i] by simp
      next
        case False
        then have jw: "j = w" by (simp add: j_def split: if_splits)
        define k where "k = nat w"
        have k: "w = int k" "0 < k" using w by (simp_all add: k_def)
        have ik: "i + k \<le> length M" using jle jw k by linarith
        define win where "win = take k (drop i M)"
        have lenwin: "length win = k" using ik by (simp add: win_def)
        let ?t = "digits_val 2 0 win"
        have wv': "window_value M (int i) j = Inr ?t" using wv jw by (simp add: win_def k_def)
        obtain k' where k': "k = Suc k'" using k(2) by (cases k) auto
        have winc: "win = 1 # take k' (drop (Suc i) M)"
          using dr one by (simp add: win_def k')
        have rb: "\<forall>d\<in>set (take k' (drop (Suc i) M)). d = 0 \<or> d = 1"
          using bits by (meson in_set_dropD in_set_takeD)
        have lenr: "length (take k' (drop (Suc i) M)) = k'" using ik k' by simp
        have tval: "?t = 2 ^ k' + digits_val 2 0 (take k' (drop (Suc i) M))"
          unfolding winc using digits_val_shift[of 2 1 "take k' (drop (Suc i) M)"] lenr by simp
        have pk: "p = 2 ^ k'" using p k k' by (simp add: nat_diff_distrib)
        have tb: "0 \<le> ?t - p" "?t - p < 2 ^ k'"
          using bits_val_bounds[OF rb] tval pk lenr by simp_all
        have lenT: "int (length T) = 2 ^ k'" using len pk p by simp
        have idx: "nat (?t - p) < length T" using tb lenT by linarith
        let ?P = "T ! nat (?t - p)"
        have nthT: "py_nth T (?t - p) = Inr ?P"
          using tb lenT by (simp add: py_nth_in_range_int)
        have P: "on ?P" "pt ?P = smul ?t (pt Q)"
        proof -
          have e: "on ?P \<and> pt ?P = smul (2 ^ nat (w - 1) + int (nat (?t - p))) (pt Q)"
            using ent idx by blast
          then show "on ?P" by simp
          have "2 ^ nat (w - 1) + int (nat (?t - p)) = ?t" using tb(1) p by simp
          then show "pt ?P = smul ?t (pt Q)" using e by simp
        qed
        let ?D = "doublings ec w R"
        have D: "on ?D" "pt ?D = smul (2 ^ k) (pt R)"
          using doublings_ok[OF gl less.prems(1), of w] by (simp_all add: k_def)
        let ?R = "add_jac ec ?D ?P"
        have R1: "on ?R" using add[OF D(1) P(1)] by simp
        have "pt ?R = smul (2 ^ k) (smul v (pt Q)) + smul ?t (pt Q)"
          using add[OF D(1) P(1)] D(2) P(2) less.prems(2) by simp
        then have "pt ?R = smul (2 ^ k * v + ?t) (pt Q)"
          by (simp only: smul_add smul_mult)
        then have R2: "pt ?R = smul (digits_val 2 v win) (pt Q)"
          using digits_val_shift[of 2 v win] lenwin by simp
        have meas: "length M - (i + k) < length M - i" using k(2) lt by linarith
        obtain R' where R': "sliding_window_loop ec Q w p T M (int (i + k)) ?R = Some (Inr R')"
          "on R'" "pt R' = smul (digits_val 2 (digits_val 2 v win) (drop (i + k) M)) (pt Q)"
          using less.hyps[OF meas R1 R2 ik] by blast
        have "int (i + k) = int i + w" using k by simp
        then have "sliding_window_loop ec Q w p T M (int i + w) ?R = Some (Inr R')"
          using R'(1) by (simp only:)
        then have "sliding_window_loop ec Q w p T M (int i) R = Some (Inr R')"
          using sliding_window_loop_window[of "int i" M 1 j w ?t ec Q p T R]
            lt nth one wv' jw nthT j_def by simp
        moreover have "digits_val 2 (digits_val 2 v win) (drop (i + k) M) = digits_val 2 v (drop i M)"
        proof -
          have "drop (i + k) M = drop k (drop i M)" by (simp add: add.commute)
          then have "drop i M = win @ drop (i + k) M"
            unfolding win_def by (simp only: append_take_drop_id)
          then show ?thesis by (simp add: digits_val_append)
        qed
        ultimately show ?thesis using R'(2,3) by simp
      qed
    qed
  qed
qed

lemma sliding_window_correct:
  assumes gl: "group_law ec infj on pt" and m: "0 \<le> m" and Q: "on Q" and w: "1 \<le> w"
  shows "\<exists>R. mult_jac_sliding_window infj m w Q ec = Some (Inr R) \<and> on R \<and> pt R = smul m (pt Q)"
proof (cases "Q = infj")
  case True
  then have "pt Q = 0" using gl by (simp add: group_law_def)
  then show ?thesis using True m Q by (simp add: mult_jac_sliding_window_def)
next
  case False
  have inf: "on infj" "pt infj = smul 0 (pt Q)" using gl by (simp_all add: group_law_def)
  obtain T where T: "sliding_window_table ec w Q = Inr T" and len: "length T = 2 ^ nat (w - 1)"
    and ent: "\<forall>i<length T. on (T ! i) \<and> pt (T ! i) = smul (2 ^ nat (w - 1) + int i) (pt Q)"
    using sliding_window_table_ok[OF gl Q w] by (elim exE conjE)
  obtain M where M: "numberToBase m 2 = Some (Inr M)"
    and rng: "\<forall>d\<in>set M. 0 \<le> d \<and> d < 2" and val: "digits_val 2 0 M = m"
    using numberToBase_ok[of 2 m] m by auto
  have bits: "\<forall>d\<in>set M. d = 0 \<or> d = 1"
  proof
    fix d assume "d \<in> set M"
    then have "0 \<le> d \<and> d < 2" using rng by blast
    then show "d = 0 \<or> d = 1" by linarith
  qed
  obtain R' where R': "sliding_window_loop ec Q w (2 ^ nat (w - 1)) T M (int 0) infj = Some (Inr R')"
    "on R'" "pt R' = smul (digits_val 2 0 (drop 0 M)) (pt Q)"
    using sliding_window_loop_ok[OF gl Q w refl len ent bits inf, of 0] by auto
  have "mult_jac_sliding_window infj m w Q ec = Some (Inr R')"
    using False m w T M R'(1) by (simp add: mult_jac_sliding_window_def Let_def)
  then show ?thesis using R'(2,3) val by simp
qed

section \<open>Correctness of the wNAF engine\<close>

lemma mods_odd:
  assumes w: "2 \<le> w" and odd: "m mod 2 = 1" and d: "mods m w = Inr d"
  shows "d mod 2 = 1" and "- (2 ^ (w - 1)) < d" and "d < 2 ^ (w - 1)"
    and "(m - d) mod 2 = 0"
proof -
  obtain k where k: "w = Suc (Suc k)" using w by (metis Suc_leD Suc_le_D numeral_2_eq_2 Suc_le_mono le_0_eq not0_implies_Suc)
  have w1: "1 \<le> w" using w by simp
  have c: "d mod 2 ^ w = m mod 2 ^ w" "- (2 ^ (w - 1)) \<le> d" "d \<le> 2 ^ (w - 1) - 1"
    using mods_range[OF w1 d] by simp_all
  have dvd: "(2::int) dvd 2 ^ w" using k by simp
  have "d mod 2 = (d mod 2 ^ w) mod 2"
    using dvd by (simp add: mod_mod_cancel)
  also have "\<dots> = (m mod 2 ^ w) mod 2" using c(1) by simp
  also have "\<dots> = m mod 2" using dvd by (simp add: mod_mod_cancel)
  finally show o: "d mod 2 = 1" using odd by simp
  have ev: "(2::int) ^ (w - 1) mod 2 = 0" using k by simp
  show "- (2 ^ (w - 1)) < d"
  proof (rule ccontr)
    assume "\<not> - (2 ^ (w - 1)) < d"
    then have "d = - (2 ^ (w - 1))" using c(2) by linarith
    then have "d mod 2 = 0" using ev by (simp add: zmod_zminus1_eq_if)
    then show False using o by simp
  qed
  show "d < 2 ^ (w - 1)" using c(3) by linarith
  show "(m - d) mod 2 = 0" using o odd by presburger
qed

lemma mods_le_self:
  assumes w: "1 \<le> w" and m: "0 \<le> m" and d: "mods m w = Inr d"
  shows "d \<le> m" and "d < 0 \<Longrightarrow> - d \<le> m"
proof -
  let ?M = "m mod 2 ^ w"
  have M: "0 \<le> ?M" "?M \<le> m" "?M < 2 ^ w" using m by (simp_all add: zmod_le_nonneg_dividend)
  have p: "(0::int) < 2 ^ w" by simp
  have cases: "(2 ^ w \<le> 2 * ?M \<and> d = ?M - 2 ^ w) \<or> (\<not> 2 ^ w \<le> 2 * ?M \<and> d = ?M)"
    using mods_Inr(2)[OF d] .
  then show "d \<le> m" using M p by linarith
  show "- d \<le> m" if "d < 0"
    using cases that M by linarith
qed

lemma w_NAF_digits_ok:
  assumes w: "2 \<le> w" and wmax: "w \<le> 1024"
  shows "0 \<le> m \<Longrightarrow> i = int (length M0) \<Longrightarrow>
         \<exists>ds. w_NAF_digits w m i M0 = Some (Inr (M0 @ ds, i + int (length ds))) \<and>
              digits_val 2 0 (rev ds) = m \<and>
              (\<forall>d\<in>set ds. d = 0 \<or> (d mod 2 = 1 \<and> - (2 ^ (w - 1)) < d \<and> d < 2 ^ (w - 1)))"
proof (induction "nat m" arbitrary: m i M0 rule: less_induct)
  case less
  show ?case
  proof (cases "m = 0")
    case True
    have "w_NAF_digits w m i M0 = Some (Inr (M0 @ [], i + int (length ([]::int list))))"
      using True by (subst w_NAF_digits.simps) simp
    then show ?thesis using True by (intro exI[of _ "[]"]) simp
  next
    case False
    then have pos: "0 < m" using less.prems(1) by simp
    show ?thesis
    proof (cases "m mod 2 = 1")
      case True
      obtain d0 where dm: "mods m w = Inr d0" using mods_returns[OF wmax] by blast
      let ?d = "d0"
      let ?m = "(m - ?d) div 2"
      have w1: "1 \<le> w" using w by simp
      have d: "?d mod 2 = 1" "- (2 ^ (w - 1)) < ?d" "?d < 2 ^ (w - 1)" "(m - ?d) mod 2 = 0"
        using mods_odd[OF w True dm] by simp_all
      have le: "?d \<le> m" using mods_le_self(1)[OF w1 less.prems(1) dm] .
      have nn: "0 \<le> ?m" using le by simp
      have lt: "?m < m"
      proof (cases "?d < 0")
        case True
        have a: "- ?d \<le> m" using mods_le_self(2)[OF w1 less.prems(1) dm True] .
        have "- ?d \<noteq> m"
        proof
          assume e: "- ?d = m"
          then have "m - ?d = 2 * m" by simp
          have "m < 2 ^ (w - 1)" using e d(2) by linarith
          moreover have "(2::int) ^ (w - 1) \<le> 2 ^ w" by (rule power_increasing) simp_all
          ultimately have "m < 2 ^ w" by linarith
          then have "m mod 2 ^ w = m" using less.prems(1) by (simp add: mod_pos_pos_trivial)
          moreover have "(2::int) ^ w = 2 * 2 ^ (w - 1)" using w1 by (cases w) simp_all
          ultimately have "?d = m mod 2 ^ w \<or> ?d = m - 2 ^ w"
            using mods_Inr(2)[OF dm] by auto
          then show False using e pos \<open>m mod 2 ^ w = m\<close> \<open>m < 2 ^ (w - 1)\<close> \<open>(2::int) ^ w = 2 * 2 ^ (w - 1)\<close> True
            by linarith
        qed
        then have "m - ?d < 2 * m" using a by linarith
        then show ?thesis by linarith
      next
        case False
        then have "0 < ?d" using d(1) by presburger
        then show ?thesis using pos by linarith
      qed
      have meas: "nat ?m < nat m" using lt pos by linarith
      have i': "i + 1 = int (length (M0 @ [?d]))" using less.prems(2) by simp
      obtain ds where ds: "w_NAF_digits w ?m (i + 1) (M0 @ [?d]) =
            Some (Inr ((M0 @ [?d]) @ ds, (i + 1) + int (length ds)))"
        and val: "digits_val 2 0 (rev ds) = ?m"
        and rng: "\<forall>d\<in>set ds. d = 0 \<or> (d mod 2 = 1 \<and> - (2 ^ (w - 1)) < d \<and> d < 2 ^ (w - 1))"
        using less.hyps[OF meas nn i'] by (elim exE conjE)
      have nth: "py_nth (M0 @ [?d]) i = Inr ?d"
        using less.prems(2) by (simp add: py_nth_def Let_def)
      have "w_NAF_digits w m i M0 = w_NAF_digits w ?m (i + 1) (M0 @ [?d])"
        using pos True nth dm by (subst w_NAF_digits.simps) (simp add: Let_def)
      then have r: "w_NAF_digits w m i M0 = Some (Inr (M0 @ (?d # ds), i + int (length (?d # ds))))"
        using ds by (simp add: add.assoc add.commute)
      have "2 * ?m + ?d = m" using d(4) by presburger
      then have v: "digits_val 2 0 (rev (?d # ds)) = m"
        using val by (simp add: digits_val_snoc)
      have rng': "\<forall>d\<in>set (?d # ds). d = 0 \<or> (d mod 2 = 1 \<and> - (2 ^ (w - 1)) < d \<and> d < 2 ^ (w - 1))"
        using rng d by simp
      show ?thesis
        by (rule exI[of _ "?d # ds"]) (intro conjI r v rng')
    next
      case False
      let ?m = "m div 2"
      have nn: "0 \<le> ?m" using pos by simp
      have meas: "nat ?m < nat m" using pos by linarith
      have i': "i + 1 = int (length (M0 @ [0]))" using less.prems(2) by simp
      obtain ds where ds: "w_NAF_digits w ?m (i + 1) (M0 @ [0]) =
            Some (Inr ((M0 @ [0]) @ ds, (i + 1) + int (length ds)))"
        and val: "digits_val 2 0 (rev ds) = ?m"
        and rng: "\<forall>d\<in>set ds. d = 0 \<or> (d mod 2 = 1 \<and> - (2 ^ (w - 1)) < d \<and> d < 2 ^ (w - 1))"
        using less.hyps[OF meas nn i'] by (elim exE conjE)
      have "w_NAF_digits w m i M0 = w_NAF_digits w ?m (i + 1) (M0 @ [0])"
        using pos False by (subst w_NAF_digits.simps) simp
      then have r: "w_NAF_digits w m i M0 = Some (Inr (M0 @ (0 # ds), i + int (length (0 # ds))))"
        using ds by (simp add: add.assoc add.commute)
      have "2 * ?m + 0 = m" using False by presburger
      then have v: "digits_val 2 0 (rev (0 # ds)) = m"
        using val by (simp add: digits_val_snoc)
      have rng': "\<forall>d\<in>set (0 # ds). d = 0 \<or> (d mod 2 = 1 \<and> - (2 ^ (w - 1)) < d \<and> d < 2 ^ (w - 1))"
        using rng by simp
      show ?thesis
        by (rule exI[of _ "0 # ds"]) (intro conjI r v rng')
    qed
  qed
qed

lemma w_NAF_digits_sound:
  assumes "w_NAF_digits w m i M0 = Some y"
  shows "\<forall>M p. y = Inr (M, p) \<longrightarrow> 2 \<le> w \<longrightarrow> i = int (length M0) \<longrightarrow>
           (\<exists>ds. M = M0 @ ds \<and> p = int (length M) \<and>
              (\<forall>d\<in>set ds. d = 0 \<or> (d mod 2 = 1 \<and> - (2 ^ (w - 1)) < d \<and> d < 2 ^ (w - 1))))"
proof (rule w_NAF_digits.raw_induct
    [where P = "\<lambda>w m i M0 y. \<forall>M p. y = Inr (M, p) \<longrightarrow> 2 \<le> w \<longrightarrow> i = int (length M0) \<longrightarrow>
           (\<exists>ds. M = M0 @ ds \<and> p = int (length M) \<and>
              (\<forall>d\<in>set ds. d = 0 \<or> (d mod 2 = 1 \<and> - (2 ^ (w - 1)) < d \<and> d < 2 ^ (w - 1))))",
     OF _ assms])
  fix f :: "nat \<Rightarrow> int \<Rightarrow> int \<Rightarrow> int list \<Rightarrow> (error + int list \<times> int) option"
  fix w m i M0 y
  assume IH: "\<And>w m i M0 y. f w m i M0 = Some y \<Longrightarrow>
         \<forall>M p. y = Inr (M, p) \<longrightarrow> 2 \<le> w \<longrightarrow> i = int (length M0) \<longrightarrow>
           (\<exists>ds. M = M0 @ ds \<and> p = int (length M) \<and>
              (\<forall>d\<in>set ds. d = 0 \<or> (d mod 2 = 1 \<and> - (2 ^ (w - 1)) < d \<and> d < 2 ^ (w - 1))))"
  assume body: "(if 0 < m
      then if m mod 2 = 1
           then case mods m w of Inl e \<Rightarrow> Some (Inl e)
                | Inr s \<Rightarrow>
                    let M' = M0 @ [s]
                    in case py_nth M' i of Inl e \<Rightarrow> Some (Inl e)
                       | Inr d \<Rightarrow> f w ((m - d) div 2) (i + 1) M'
           else f w (m div 2) (i + 1) (M0 @ [0])
      else Some (Inr (M0, i))) = Some y"
  show "\<forall>M p. y = Inr (M, p) \<longrightarrow> 2 \<le> w \<longrightarrow> i = int (length M0) \<longrightarrow>
           (\<exists>ds. M = M0 @ ds \<and> p = int (length M) \<and>
              (\<forall>d\<in>set ds. d = 0 \<or> (d mod 2 = 1 \<and> - (2 ^ (w - 1)) < d \<and> d < 2 ^ (w - 1))))"
  proof (intro allI impI)
    fix M p
    assume y: "y = Inr (M, p)" and w: "2 \<le> w" and i: "i = int (length M0)"
    let ?ok = "\<lambda>d. d = 0 \<or> (d mod 2 = 1 \<and> - (2 ^ (w - 1)) < d \<and> d < 2 ^ (w - 1))"
    have grow: "\<exists>ds. M = M0 @ ds \<and> p = int (length M) \<and> (\<forall>d\<in>set ds. ?ok d)"
      if call: "f w m' (i + 1) (M0 @ [s]) = Some y" and s: "?ok s" for m' s
    proof -
      have "i + 1 = int (length (M0 @ [s]))" using i by simp
      then obtain ds where ds: "M = (M0 @ [s]) @ ds" "p = int (length M)" "\<forall>d\<in>set ds. ?ok d"
        using IH[OF call] y w by blast
      show ?thesis
        by (rule exI[of _ "s # ds"]) (use ds s in simp)
    qed
    show "\<exists>ds. M = M0 @ ds \<and> p = int (length M) \<and> (\<forall>d\<in>set ds. ?ok d)"
    proof (cases "0 < m")
      case False
      then have "M = M0" "p = i" using body y by simp_all
      then show ?thesis using i by simp
    next
      case pos: True
      show ?thesis
      proof (cases "m mod 2 = 1")
        case odd: True
        show ?thesis
        proof (cases "mods m w")
          case (Inl e)
          then show ?thesis using body pos odd y by simp
        next
          case (Inr s)
          have nth: "py_nth (M0 @ [s]) i = Inr s" using i by (simp add: py_nth_def Let_def)
          have call: "f w ((m - s) div 2) (i + 1) (M0 @ [s]) = Some y"
            using body pos odd Inr nth by (simp add: Let_def)
          have "?ok s" using mods_odd(1,2,3)[OF w odd Inr] by blast
          then show ?thesis using grow[OF call] by blast
        qed
      next
        case even: False
        have call: "f w (m div 2) (i + 1) (M0 @ [0]) = Some y"
          using body pos even by simp
        show ?thesis using grow[OF call] by blast
      qed
    qed
  qed
qed

lemma w_NAF_overflow:
  assumes "m mod 2 = 1" and "0 < m" and "Q \<noteq> infj" and "1025 \<le> w"
  shows "mult_jac_w_NAF infj m w Q ec = Some (Inl OverflowError)"
proof -
  have "1025 \<le> nat w" using assms(4) by simp
  then have "mods m (nat w) = Inl OverflowError" by (rule mods_overflow)
  then have "w_NAF_digits (nat w) m 0 [] = Some (Inl OverflowError)"
    using assms(1,2) by (subst w_NAF_digits.simps) simp
  then show ?thesis using assms(2,3,4) by (simp add: mult_jac_w_NAF_def)
qed

lemma negate_loop:
  assumes h: "b div 2 = int (length T1)"
  shows "k \<le> length T1 \<Longrightarrow>
         foldE (negate_step ec b) T1 (map int [length T1..<length T1 + k]) =
           Inr (T1 @ map (negate ec) (take k T1))"
proof (induction k)
  case 0
  show ?case by simp
next
  case (Suc k)
  let ?T = "T1 @ map (negate ec) (take k T1)"
  have ih: "foldE (negate_step ec b) T1 (map int [length T1..<length T1 + k]) = Inr ?T"
    using Suc by simp
  have lt: "k < length T1" using Suc.prems by simp
  have "int (length T1 + k) - b div 2 = int k" using h by simp
  moreover have "length T1 \<le> length ?T" by simp
  then have "k < length ?T" using lt by linarith
  then have "py_nth ?T (int k) = Inr (?T ! k)"
    by (rule py_nth_in_range)
  moreover have "?T ! k = T1 ! k" using lt by (simp add: nth_append)
  ultimately have step: "negate_step ec b ?T (int (length T1 + k)) = Inr (?T @ [negate ec (T1 ! k)])"
    by (simp add: negate_step_def)
  have tk: "take (Suc k) T1 = take k T1 @ [T1 ! k]" using lt by (simp add: take_Suc_conv_app_nth)
  have "[length T1..<length T1 + Suc k] = [length T1..<length T1 + k] @ [length T1 + k]" by simp
  then have "foldE (negate_step ec b) T1 (map int [length T1..<length T1 + Suc k]) =
        bindE (Inr ?T) (\<lambda>T. foldE (negate_step ec b) T [int (length T1 + k)])"
    using ih by (simp only: map_append foldE_append list.map)
  also have "\<dots> = Inr (?T @ [negate ec (T1 ! k)])" using step by simp
  finally show ?case unfolding tk by simp
qed

lemma w_NAF_table_ok:
  assumes gl: "group_law ec infj on pt" and Q: "on Q" and w: "1 \<le> w"
  shows "\<exists>T. w_NAF_table ec (2 ^ w) Q = Inr T \<and> length T = 2 ^ w \<and>
           (\<forall>k<2 ^ (w - 1). on (T ! k) \<and> pt (T ! k) = smul (2 * int k + 1) (pt Q) \<and>
              on (T ! (2 ^ (w - 1) + k)) \<and> pt (T ! (2 ^ (w - 1) + k)) = smul (- (2 * int k + 1)) (pt Q))"
proof -
  have add: "\<And>P Q. on P \<Longrightarrow> on Q \<Longrightarrow> on (add_jac ec P Q) \<and> pt (add_jac ec P Q) = pt P + pt Q"
    using gl by (simp add: group_law_def)
  have neg: "\<And>P. on P \<Longrightarrow> on (negate ec P) \<and> pt (negate ec P) = - pt P"
    using gl by (simp add: group_law_def)
  obtain w' where w': "w = Suc w'" using w by (cases w) auto
  define hn :: nat where "hn = 2 ^ w'"
  have half: "(2::int) ^ w div 2 = int hn" by (simp add: w' hn_def)
  have full: "(2::int) ^ w = int (hn + hn)" by (simp add: w' hn_def)
  let ?Q2 = "add_jac ec Q Q"
  have Q2: "on ?Q2" "pt ?Q2 = smul 2 (pt Q)" using add[OF Q Q] by (simp_all add: smul_2)
  have h1: "1 \<le> int hn" by (simp add: hn_def)
  obtain T1 where T1: "build_table ec Q ?Q2 (int hn) = Inr T1" and len1: "length T1 = hn"
    and ent1: "\<forall>i<hn. on (T1 ! i) \<and> pt (T1 ! i) = pt Q + smul (int i) (pt ?Q2)"
    using build_table_ok[OF gl Q Q2(1) h1] by auto
  have ent: "on (T1 ! k) \<and> pt (T1 ! k) = smul (2 * int k + 1) (pt Q)" if "k < hn" for k
  proof -
    have "pt (T1 ! k) = smul 1 (pt Q) + smul (int k) (smul 2 (pt Q))"
      using ent1 that Q2(2) by simp
    also have "\<dots> = smul (1 + int k * 2) (pt Q)" by (simp only: smul_add smul_mult)
    finally show ?thesis using ent1 that by (simp add: algebra_simps)
  qed
  let ?T = "T1 @ map (negate ec) T1"
  have "py_range (int hn) (int (hn + hn)) = map int [length T1..<length T1 + hn]"
    using py_range_nat[of hn "hn + hn"] len1 by simp
  moreover have "foldE (negate_step ec (2 ^ w)) T1 (map int [length T1..<length T1 + hn]) =
      Inr (T1 @ map (negate ec) (take hn T1))"
    using negate_loop[of "2 ^ w" T1 hn ec] half len1 by simp
  ultimately have tab: "w_NAF_table ec (2 ^ w) Q = Inr ?T"
    using T1 len1 half full by (simp add: w_NAF_table_def Let_def)
  have lenT: "length ?T = 2 ^ w" using len1 by (simp add: w' hn_def)
  have hw: "(2::nat) ^ (w - 1) = hn" by (simp add: w' hn_def)
  have all: "\<forall>k<2 ^ (w - 1). on (?T ! k) \<and> pt (?T ! k) = smul (2 * int k + 1) (pt Q) \<and>
              on (?T ! (2 ^ (w - 1) + k)) \<and> pt (?T ! (2 ^ (w - 1) + k)) = smul (- (2 * int k + 1)) (pt Q)"
  proof (intro allI impI)
    fix k :: nat assume "k < 2 ^ (w - 1)"
    then have k: "k < hn" using hw by simp
    have lo: "?T ! k = T1 ! k" using k len1 by (simp add: nth_append)
    have hi: "?T ! (hn + k) = negate ec (T1 ! k)" using k len1 by (simp add: nth_append)
    have e: "on (T1 ! k)" "pt (T1 ! k) = smul (2 * int k + 1) (pt Q)" using ent[OF k] by simp_all
    have "pt (negate ec (T1 ! k)) = - smul (2 * int k + 1) (pt Q)"
      using neg[OF e(1)] e(2) by simp
    then have "on (negate ec (T1 ! k))" "pt (negate ec (T1 ! k)) = smul (- (2 * int k + 1)) (pt Q)"
      using neg[OF e(1)] by (simp_all only: smul_minus)
    then show "on (?T ! k) \<and> pt (?T ! k) = smul (2 * int k + 1) (pt Q) \<and>
              on (?T ! (2 ^ (w - 1) + k)) \<and> pt (?T ! (2 ^ (w - 1) + k)) = smul (- (2 * int k + 1)) (pt Q)"
      unfolding hw lo hi using e by simp
  qed
  show ?thesis
    by (rule exI[of _ ?T]) (intro conjI tab lenT all)
qed

lemma w_NAF_lookup:
  assumes w: "2 \<le> w" and len: "length T = 2 ^ w"
    and ent: "\<forall>k<2 ^ (w - 1). on (T ! k) \<and> pt (T ! k) = smul (2 * int k + 1) g \<and>
              on (T ! (2 ^ (w - 1) + k)) \<and> pt (T ! (2 ^ (w - 1) + k)) = smul (- (2 * int k + 1)) g"
    and d: "d mod 2 = 1" "- (2 ^ (w - 1)) < d" "d < 2 ^ (w - 1)"
  shows "0 < d \<Longrightarrow> py_nth T ((d - 1) div 2) = Inr (T ! nat ((d - 1) div 2)) \<and>
           on (T ! nat ((d - 1) div 2)) \<and> pt (T ! nat ((d - 1) div 2)) = smul d g"
    and "d < 0 \<Longrightarrow> py_nth T (2 ^ w div 2 - ((d + 1) div 2)) = Inr (T ! (2 ^ (w - 1) + nat ((- d - 1) div 2))) \<and>
           on (T ! (2 ^ (w - 1) + nat ((- d - 1) div 2))) \<and>
           pt (T ! (2 ^ (w - 1) + nat ((- d - 1) div 2))) = smul d g"
proof -
  obtain w' where w': "w = Suc w'" using w by (cases w) auto
  have half: "(2::int) ^ w div 2 = 2 ^ (w - 1)" by (simp add: w')
  have full: "(2::int) ^ w = 2 ^ (w - 1) + 2 ^ (w - 1)" by (simp add: w')
  have lenT: "int (length T) = 2 ^ w" using len by simp
  show "py_nth T ((d - 1) div 2) = Inr (T ! nat ((d - 1) div 2)) \<and>
           on (T ! nat ((d - 1) div 2)) \<and> pt (T ! nat ((d - 1) div 2)) = smul d g" if pos: "0 < d"
  proof -
    define k where "k = nat ((d - 1) div 2)"
    have ik: "int k = (d - 1) div 2" using pos by (simp add: k_def)
    have dk: "2 * int k + 1 = d" using ik d(1) by presburger
    have "int k < 2 ^ (w - 1)" using dk d(3) by linarith
    then have klt: "k < 2 ^ (w - 1)" by (metis of_nat_less_iff of_nat_numeral of_nat_power)
    have "int k < int (length T)" using \<open>int k < 2 ^ (w - 1)\<close> full lenT by linarith
    then have nth: "py_nth T ((d - 1) div 2) = Inr (T ! k)"
      using py_nth_in_range[of k T] ik by simp
    have e: "on (T ! k)" "pt (T ! k) = smul (2 * int k + 1) g" using ent klt by blast+
    show ?thesis unfolding k_def[symmetric] using nth e(1) e(2)[unfolded dk] by blast
  qed
  show "py_nth T (2 ^ w div 2 - ((d + 1) div 2)) = Inr (T ! (2 ^ (w - 1) + nat ((- d - 1) div 2))) \<and>
           on (T ! (2 ^ (w - 1) + nat ((- d - 1) div 2))) \<and>
           pt (T ! (2 ^ (w - 1) + nat ((- d - 1) div 2))) = smul d g" if neg: "d < 0"
  proof -
    define k where "k = nat ((- d - 1) div 2)"
    have ik: "int k = (- d - 1) div 2" using neg by (simp add: k_def)
    have dk: "- (2 * int k + 1) = d" using ik d(1) by presburger
    have dv: "(d + 1) div 2 = - int k" using ik d(1) by presburger
    have "int k < 2 ^ (w - 1)" using dk d(2) by linarith
    then have klt: "k < 2 ^ (w - 1)" by (metis of_nat_less_iff of_nat_numeral of_nat_power)
    have idx: "2 ^ w div 2 - ((d + 1) div 2) = int (2 ^ (w - 1) + k)"
      using half dv by simp
    have "int (2 ^ (w - 1) + k) < int (length T)"
      using \<open>int k < 2 ^ (w - 1)\<close> full lenT by simp
    then have "2 ^ (w - 1) + k < length T" by linarith
    then have nth: "py_nth T (2 ^ w div 2 - ((d + 1) div 2)) = Inr (T ! (2 ^ (w - 1) + k))"
      unfolding idx by (rule py_nth_in_range)
    have e: "on (T ! (2 ^ (w - 1) + k))" "pt (T ! (2 ^ (w - 1) + k)) = smul (- (2 * int k + 1)) g"
      using ent klt by blast+
    show ?thesis unfolding k_def[symmetric] using nth e(1) e(2)[unfolded dk] by blast
  qed
qed

lemma w_NAF_step_digit:
  "w_NAF_step ec b T M = (\<lambda>R j. bindE (py_nth M j) (\<lambda>d.
       if d \<noteq> 0 then
         (if d > 0 then bindE (py_nth T ((d - 1) div 2)) (\<lambda>P. Inr (add_jac ec (add_jac ec R R) P))
          else bindE (py_nth T (b div 2 - ((d + 1) div 2))) (\<lambda>P. Inr (add_jac ec (add_jac ec R R) P)))
       else Inr (add_jac ec R R)))"
  by (intro ext) (simp add: w_NAF_step_def Let_def)

lemma w_NAF_loop_ok:
  assumes gl: "group_law ec infj on pt" and w: "2 \<le> w" and len: "length T = 2 ^ w"
    and ent: "\<forall>k<2 ^ (w - 1). on (T ! k) \<and> pt (T ! k) = smul (2 * int k + 1) g \<and>
              on (T ! (2 ^ (w - 1) + k)) \<and> pt (T ! (2 ^ (w - 1) + k)) = smul (- (2 * int k + 1)) g"
  shows "on R \<Longrightarrow> pt R = smul v g \<Longrightarrow>
         \<forall>d\<in>set ds. d = 0 \<or> (d mod 2 = 1 \<and> - (2 ^ (w - 1)) < d \<and> d < 2 ^ (w - 1)) \<Longrightarrow>
         \<exists>R'. foldE (\<lambda>R d.
                 if d \<noteq> 0 then
                   (if d > 0 then bindE (py_nth T ((d - 1) div 2)) (\<lambda>P. Inr (add_jac ec (add_jac ec R R) P))
                    else bindE (py_nth T (2 ^ w div 2 - ((d + 1) div 2))) (\<lambda>P. Inr (add_jac ec (add_jac ec R R) P)))
                 else Inr (add_jac ec R R)) R ds = Inr R' \<and>
              on R' \<and> pt R' = smul (digits_val 2 v ds) g"
proof (induction ds arbitrary: R v)
  case Nil
  then show ?case by simp
next
  case (Cons d ds)
  let ?h = "\<lambda>R d.
                 if d \<noteq> 0 then
                   (if d > 0 then bindE (py_nth T ((d - 1) div 2)) (\<lambda>P. Inr (add_jac ec (add_jac ec R R) P))
                    else bindE (py_nth T (2 ^ w div 2 - ((d + 1) div 2))) (\<lambda>P. Inr (add_jac ec (add_jac ec R R) P)))
                 else Inr (add_jac ec R R)"
  have add: "\<And>P Q. on P \<Longrightarrow> on Q \<Longrightarrow> on (add_jac ec P Q) \<and> pt (add_jac ec P Q) = pt P + pt Q"
    using gl by (simp add: group_law_def)
  let ?D = "add_jac ec R R"
  have D: "on ?D" "pt ?D = smul (2 * v) g"
    using add[OF Cons.prems(1) Cons.prems(1)] Cons.prems(2) by (simp_all only: smul_double)
  have "\<exists>R1. ?h R d = Inr R1 \<and> on R1 \<and> pt R1 = smul (2 * v + d) g"
  proof (cases "d = 0")
    case True
    then show ?thesis using D by simp
  next
    case False
    then have dd: "d mod 2 = 1" "- (2 ^ (w - 1)) < d" "d < 2 ^ (w - 1)" using Cons.prems(3) by simp_all
    have "\<exists>P. (if d > 0 then py_nth T ((d - 1) div 2) else py_nth T (2 ^ w div 2 - ((d + 1) div 2))) = Inr P
             \<and> on P \<and> pt P = smul d g"
    proof (cases "0 < d")
      case True
      then show ?thesis using w_NAF_lookup(1)[OF w len ent dd True] by simp
    next
      case F: False
      then have "d < 0" using False by simp
      then show ?thesis using w_NAF_lookup(2)[OF w len ent dd] F by simp
    qed
    then obtain P where P: "(if d > 0 then py_nth T ((d - 1) div 2) else py_nth T (2 ^ w div 2 - ((d + 1) div 2))) = Inr P"
      "on P" "pt P = smul d g" by blast
    have "pt (add_jac ec ?D P) = smul (2 * v) g + smul d g" using add[OF D(1) P(2)] D(2) P(3) by simp
    then have "pt (add_jac ec ?D P) = smul (2 * v + d) g" by (simp only: smul_add)
    moreover have "on (add_jac ec ?D P)" using add[OF D(1) P(2)] by simp
    moreover have "?h R d = Inr (add_jac ec ?D P)" using False P(1) by (simp split: if_splits)
    ultimately show ?thesis by blast
  qed
  then obtain R1 where R1: "?h R d = Inr R1" "on R1" "pt R1 = smul (2 * v + d) g" by blast
  have rest: "\<forall>d\<in>set ds. d = 0 \<or> (d mod 2 = 1 \<and> - (2 ^ (w - 1)) < d \<and> d < 2 ^ (w - 1))"
    using Cons.prems(3) by simp
  obtain R' where R': "foldE ?h R1 ds = Inr R'" "on R'" "pt R' = smul (digits_val 2 (2 * v + d) ds) g"
    using Cons.IH[OF R1(2,3) rest] by blast
  have "foldE ?h R (d # ds) = Inr R'" using R1(1) R'(1) by (simp only: foldE.simps bindE.simps)
  then show ?case using R'(2,3) by (simp only: digits_val_Cons) blast
qed

lemma w_NAF_correct:
  assumes gl: "group_law ec infj on pt" and m: "0 \<le> m" and Q: "on Q" and w: "2 \<le> w"
    and wmax: "w \<le> 1024"
  shows "\<exists>R. mult_jac_w_NAF infj m w Q ec = Some (Inr R) \<and> on R \<and> pt R = smul m (pt Q)"
proof -
  have inf: "on infj" "pt infj = 0" using gl by (simp_all add: group_law_def)
  consider "m = 0" | "0 < m" "Q = infj" | "0 < m" "Q \<noteq> infj" using m by linarith
  then show ?thesis
  proof cases
    case 1
    then show ?thesis using inf by (simp add: mult_jac_w_NAF_def)
  next
    case 2
    then show ?thesis using inf by (simp add: mult_jac_w_NAF_def)
  next
    case 3
    define k where "k = nat w"
    have k: "2 \<le> k" "1 \<le> k" "k \<le> 1024" using w wmax by (simp_all add: k_def)
    obtain ds where ds: "w_NAF_digits k m 0 [] = Some (Inr ([] @ ds, 0 + int (length ds)))"
      and val: "digits_val 2 0 (rev ds) = m"
      and rng: "\<forall>d\<in>set ds. d = 0 \<or> (d mod 2 = 1 \<and> - (2 ^ (k - 1)) < d \<and> d < 2 ^ (k - 1))"
      using w_NAF_digits_ok[OF k(1) k(3) m, of 0 "[]"] by auto
    obtain T where T: "w_NAF_table ec (2 ^ k) Q = Inr T" and len: "length T = 2 ^ k"
      and ent: "\<forall>j<2 ^ (k - 1). on (T ! j) \<and> pt (T ! j) = smul (2 * int j + 1) (pt Q) \<and>
              on (T ! (2 ^ (k - 1) + j)) \<and> pt (T ! (2 ^ (k - 1) + j)) = smul (- (2 * int j + 1)) (pt Q)"
      using w_NAF_table_ok[OF gl Q k(2)] by (elim exE conjE)
    have rng': "\<forall>d\<in>set (rev ds). d = 0 \<or> (d mod 2 = 1 \<and> - (2 ^ (k - 1)) < d \<and> d < 2 ^ (k - 1))"
      using rng by simp
    have inf': "pt infj = smul 0 (pt Q)" using inf by simp
    let ?h = "\<lambda>R d.
                 if d \<noteq> 0 then
                   (if d > 0 then bindE (py_nth T ((d - 1) div 2)) (\<lambda>P. Inr (add_jac ec (add_jac ec R R) P))
                    else bindE (py_nth T (2 ^ k div 2 - ((d + 1) div 2))) (\<lambda>P. Inr (add_jac ec (add_jac ec R R) P)))
                 else Inr (add_jac ec R R)"
    obtain R' where R': "foldE ?h infj (rev ds) = Inr R'"
      "on R'" "pt R' = smul (digits_val 2 0 (rev ds)) (pt Q)"
      using w_NAF_loop_ok[OF gl k(1) len ent inf(1) inf' rng'] by (elim exE conjE)
    have idx: "\<forall>i\<in>set (rev [0..<length ds]). i < length ds" by simp
    have "foldE (\<lambda>R j. bindE (py_nth ds j) (?h R)) infj (map int (rev [0..<length ds])) =
          foldE ?h infj (map ((!) ds) (rev [0..<length ds]))"
      by (rule foldE_index[OF idx])
    then have fold: "foldE (w_NAF_step ec (2 ^ k) T ds) infj (map int (rev [0..<length ds])) = Inr R'"
      unfolding w_NAF_step_digit map_nth_rev_upt R'(1) .
    have "rev (py_range 0 (0 + int (length ds))) = map int (rev [0..<length ds])"
      using py_range_nat[of 0 "length ds"] by (simp add: rev_map)
    then have "foldE (w_NAF_step ec (2 ^ k) T ds) infj (rev (py_range 0 (0 + int (length ds)))) = Inr R'"
      using fold by (simp only:)
    then have "mult_jac_w_NAF infj m w Q ec = Some (Inr R')"
      using 3 w ds T by (simp add: mult_jac_w_NAF_def k_def Let_def)
    then show ?thesis using R'(2,3) val by simp
  qed
qed

section \<open>The claims\<close>

text \<open>
  Claim C1, as stated: for every valid window width, for wNAF every \<open>w \<ge> 2\<close>, the
  five engines return the same point \<open>m \<cdot> Q\<close>. It fails for wNAF when
  \<open>w \<ge> 1025\<close>: the first odd value of \<open>m\<close> makes \<^verbatim>\<open>mods\<close> evaluate
  \<^verbatim>\<open>2 ** w / 2\<close>, which is too large for a float, and the engine raises
  \<^verbatim>\<open>OverflowError\<close> where the Montgomery ladder returns \<open>5 \<cdot> Q\<close>.
\<close>

theorem cross_strategy_agreement_counterexample:
  "mult_jac_mont_ladder 0 5 1 toy = Inr 5 \<and>
   mult_jac_w_NAF 0 5 1025 1 toy = Some (Inl OverflowError)"
proof -
  have "mult_jac_mont_ladder 0 5 1 toy = Inr 5" by code_simp
  moreover have "mult_jac_w_NAF 0 5 1025 1 toy = Some (Inl OverflowError)"
    by (rule w_NAF_overflow) simp_all
  ultimately show ?thesis by simp
qed

text \<open>
  Claim C1, amended. For every scalar \<open>m \<ge> 0\<close>, every on-curve Jacobian point \<open>Q\<close> and
  valid window widths (\<open>w \<ge> 1\<close> for the fixed-window and sliding-window engines,
  \<open>2 \<le> w \<le> 1024\<close> for wNAF), each of the five engines returns, and returns an on-curve
  representative of the same point \<open>m \<cdot> Q\<close>; and every public entry point gives the
  same result for the integer scalar \<open>k\<close> and for \<open>k mod n\<close>.
\<close>

theorem cross_strategy_agreement:
  assumes "group_law ec infj on pt" and "0 \<le> m" and "on Q"
    and "1 \<le> w1" and "1 \<le> w2" and "2 \<le> w3" and "w3 \<le> 1024"
  shows "(\<exists>R1 R2 R3 R4 R5.
            mult_jac_mont_ladder infj m Q ec = Inr R1 \<and>
            mult_jac_base_3 infj m Q ec = Some (Inr R2) \<and>
            mult_jac_fixed_window infj m w1 Q ec = Some (Inr R3) \<and>
            mult_jac_sliding_window infj m w2 Q ec = Some (Inr R4) \<and>
            mult_jac_w_NAF infj m w3 Q ec = Some (Inr R5) \<and>
            (\<forall>R \<in> {R1, R2, R3, R4, R5}. on R \<and> pt R = smul m (pt Q))) \<and>
         mult_mont_ladder im (PyInt k) A ec = mult_mont_ladder im (PyInt (k mod n ec)) A ec \<and>
         mult_base_3 im (PyInt k) A ec = mult_base_3 im (PyInt (k mod n ec)) A ec \<and>
         mult_fixed_window im (PyInt k) W A ec = mult_fixed_window im (PyInt (k mod n ec)) W A ec \<and>
         mult_sliding_window im (PyInt k) W A ec = mult_sliding_window im (PyInt (k mod n ec)) W A ec \<and>
         mult_w_NAF im (PyInt k) W A ec = mult_w_NAF im (PyInt (k mod n ec)) W A ec"
proof -
  obtain R1 where R1: "mult_jac_mont_ladder infj m Q ec = Inr R1" "on R1" "pt R1 = smul m (pt Q)"
    using mont_ladder_correct[OF assms(1,2,3)] by blast
  obtain R2 where R2: "mult_jac_base_3 infj m Q ec = Some (Inr R2)" "on R2" "pt R2 = smul m (pt Q)"
    using base_3_correct[OF assms(1,2,3)] by blast
  obtain R3 where R3: "mult_jac_fixed_window infj m w1 Q ec = Some (Inr R3)" "on R3" "pt R3 = smul m (pt Q)"
    using fixed_window_correct[OF assms(1,2,3,4)] by blast
  obtain R4 where R4: "mult_jac_sliding_window infj m w2 Q ec = Some (Inr R4)" "on R4" "pt R4 = smul m (pt Q)"
    using sliding_window_correct[OF assms(1,2,3,5)] by blast
  obtain R5 where R5: "mult_jac_w_NAF infj m w3 Q ec = Some (Inr R5)" "on R5" "pt R5 = smul m (pt Q)"
    using w_NAF_correct[OF assms(1,2,3,6,7)] by blast
  have "\<forall>R \<in> {R1, R2, R3, R4, R5}. on R \<and> pt R = smul m (pt Q)"
    using R1(2,3) R2(2,3) R3(2,3) R4(2,3) R5(2,3) by blast
  then have ex: "\<exists>R1 R2 R3 R4 R5.
            mult_jac_mont_ladder infj m Q ec = Inr R1 \<and>
            mult_jac_base_3 infj m Q ec = Some (Inr R2) \<and>
            mult_jac_fixed_window infj m w1 Q ec = Some (Inr R3) \<and>
            mult_jac_sliding_window infj m w2 Q ec = Some (Inr R4) \<and>
            mult_jac_w_NAF infj m w3 Q ec = Some (Inr R5) \<and>
            (\<forall>R \<in> {R1, R2, R3, R4, R5}. on R \<and> pt R = smul m (pt Q))"
    using R1(1) R2(1) R3(1) R4(1) R5(1) by blast
  show ?thesis by (intro conjI ex entry_points_mod)
qed

theorem cross_strategy_agreement_witness:
  "group_law toy 0 (\<lambda>P. True) (\<lambda>P. P) \<and> (0::int) \<le> 11 \<and> (1::int) \<le> 2 \<and> (1::int) \<le> 3 \<and> (2::int) \<le> 2 \<and>
   (2::int) \<le> 1024 \<and>
   mult_jac_mont_ladder 0 11 3 toy = Inr 33 \<and>
   mult_jac_base_3 0 11 3 toy = Some (Inr 33) \<and>
   mult_jac_fixed_window 0 11 2 3 toy = Some (Inr 33) \<and>
   mult_jac_sliding_window 0 11 3 3 toy = Some (Inr 33) \<and>
   mult_jac_w_NAF 0 11 2 3 toy = Some (Inr 33) \<and>
   mult_w_NAF toy_imports (PyInt 11) (PyInt 2) (Some 3) toy =
     mult_w_NAF toy_imports (PyInt (11 mod n toy)) (PyInt 2) (Some 3) toy"
proof -
  have gl: "group_law toy 0 (\<lambda>P. True) (\<lambda>P::int. P)" by (rule group_law_toy)
  have "smul 11 (3::int) = 33" by (simp add: smul_int_eq)
  then show ?thesis
    using gl cross_strategy_agreement[OF gl, where m = 11 and Q = 3 and ?w1.0 = 2 and ?w2.0 = 3
        and ?w3.0 = 2 and im = toy_imports and k = 11 and A = "Some 3" and W = "PyInt 2"]
    by auto
qed

text \<open>
  Claim C2, as stated: every public entry point called with the scalar \<open>-1\<close> raises a
  value error. It does not: the entry points reduce the scalar modulo \<^verbatim>\<open>ec.n\<close>
  before they call the engine. In the group \<open>toy\<close> of order 7, with the point 3, all
  five return the point \<open>6 \<cdot> 3\<close>.
\<close>

theorem negative_scalar_counterexample:
  "mult_mont_ladder toy_imports (PyInt (- 1)) (Some 3) toy = Inr 4 \<and>
   mult_base_3 toy_imports (PyInt (- 1)) (Some 3) toy = Some (Inr 4) \<and>
   mult_fixed_window toy_imports (PyInt (- 1)) (PyInt 2) (Some 3) toy = Some (Inr 4) \<and>
   mult_sliding_window toy_imports (PyInt (- 1)) (PyInt 2) (Some 3) toy = Some (Inr 4) \<and>
   mult_w_NAF toy_imports (PyInt (- 1)) (PyInt 2) (Some 3) toy = Some (Inr 4)"
  by code_simp

text \<open>
  Claim C2, amended. Every engine called with a negative scalar raises the
  negative-scalar value error, whatever the point and the window width. The public
  entry points reduce the scalar modulo the positive order \<open>n\<close> first: called with
  \<open>-1\<close> they hand \<open>n - 1\<close> to the engine and behave exactly as when called with
  \<open>n - 1\<close>.
\<close>

theorem negative_scalar:
  assumes "m < 0" and "0 < n ec"
  shows "mult_jac_mont_ladder infj m Q ec = Inl (ValueError_negative_m m) \<and>
         mult_jac_base_3 infj m Q ec = Some (Inl (ValueError_negative_m m)) \<and>
         mult_jac_fixed_window infj m w Q ec = Some (Inl (ValueError_negative_m m)) \<and>
         mult_jac_sliding_window infj m w Q ec = Some (Inl (ValueError_negative_m m)) \<and>
         mult_jac_w_NAF infj m w Q ec = Some (Inl (ValueError_negative_m m)) \<and>
         scalar_arg im (PyInt (- 1)) ec = Inr (n ec - 1) \<and>
         mult_mont_ladder im (PyInt (- 1)) A ec = mult_mont_ladder im (PyInt (n ec - 1)) A ec \<and>
         mult_base_3 im (PyInt (- 1)) A ec = mult_base_3 im (PyInt (n ec - 1)) A ec \<and>
         mult_fixed_window im (PyInt (- 1)) W A ec = mult_fixed_window im (PyInt (n ec - 1)) W A ec \<and>
         mult_sliding_window im (PyInt (- 1)) W A ec = mult_sliding_window im (PyInt (n ec - 1)) W A ec \<and>
         mult_w_NAF im (PyInt (- 1)) W A ec = mult_w_NAF im (PyInt (n ec - 1)) W A ec"
proof -
  have "(- 1) mod n ec = n ec - 1"
    using zmod_minus1[of "n ec"] assms(2) by blast
  moreover have "(n ec - 1) mod n ec = n ec - 1"
    by (rule mod_pos_pos_trivial) (use assms(2) in simp_all)
  ultimately have s: "scalar_arg im (PyInt (- 1)) ec = Inr (n ec - 1)"
    "scalar_arg im (PyInt (n ec - 1)) ec = Inr (n ec - 1)"
    using assms(2) by (simp_all add: scalar_arg_def)
  show ?thesis using assms(1) s
    by (simp add: mult_jac_mont_ladder_def mult_jac_base_3_def mult_jac_fixed_window_def
        mult_jac_sliding_window_def mult_jac_w_NAF_def mult_mont_ladder_def mult_base_3_def
        mult_fixed_window_def mult_sliding_window_def mult_w_NAF_def)
qed

theorem negative_scalar_witness:
  "(- 1::int) < 0 \<and> 0 < n toy \<and>
   mult_jac_mont_ladder 0 (- 1) 3 toy = Inl (ValueError_negative_m (- 1)) \<and>
   mult_jac_w_NAF 0 (- 1) 2 3 toy = Some (Inl (ValueError_negative_m (- 1))) \<and>
   scalar_arg toy_imports (PyInt (- 1)) toy = Inr 6"
proof -
  have h: "(- 1::int) < 0" "0 < n toy" by (simp_all add: toy_def)
  have "n toy - 1 = 6" by (simp add: toy_def)
  then show ?thesis
    using h negative_scalar[OF h, of 0 3 2 toy_imports None "PyInt 2"] by simp
qed



text \<open>
  Claim C4, as stated: the table of the sliding-window engine holds the odd multiples
  \<open>1Q, 3Q, 5Q, \<dots>\<close>, built from \<open>2Q\<close> by adding \<open>2Q\<close> repeatedly. It does not: for
  \<open>w = 3\<close> the table is \<open>4Q, 5Q, 6Q, 7Q\<close>, and the point obtained by the \<open>w - 1\<close>
  doublings is \<open>4Q\<close>.
\<close>

theorem sliding_window_table_counterexample:
  "sliding_window_table toy 3 1 = Inr [4, 5, 6, 7] \<and>
   sliding_window_table toy 3 1 \<noteq> Inr [smul 1 1, smul 3 1, smul 5 1, smul 7 1] \<and>
   doublings toy (3 - 1) 1 = smul 4 1"
proof -
  have "sliding_window_table toy 3 1 = Inr [4, 5, 6, 7]" by code_simp
  moreover have "doublings toy (3 - 1) 1 = 4" by code_simp
  ultimately show ?thesis by (simp add: smul_int_eq)
qed

text \<open>
  Claim C4, amended. For every window width \<open>w \<ge> 1\<close> and every on-curve point
  \<open>Q\<close>, the table of the sliding-window engine has \<open>2 ^ (w - 1)\<close> entries, the
  consecutive multiples \<open>2 ^ (w - 1) Q, (2 ^ (w - 1) + 1) Q, \<dots>, (2 ^ w - 1) Q\<close>: its
  first entry is \<open>Q\<close> doubled \<open>w - 1\<close> times, and every further entry is the one
  before it plus \<open>Q\<close>.
\<close>

theorem sliding_window_table_contents:
  assumes "group_law ec infj on pt" and "on Q" and "1 \<le> w"
  shows "\<exists>T. sliding_window_table ec w Q = Inr T \<and> length T = 2 ^ nat (w - 1) \<and>
             T ! 0 = doublings ec (w - 1) Q \<and>
             (\<forall>i<length T. on (T ! i) \<and> pt (T ! i) = smul (2 ^ nat (w - 1) + int i) (pt Q)) \<and>
             (\<forall>i. 0 < i \<and> i < length T \<longrightarrow> T ! i = add_jac ec (T ! (i - 1)) Q)"
  using assms by (rule sliding_window_table_ok)

theorem sliding_window_table_contents_witness:
  "group_law toy 0 (\<lambda>P. True) (\<lambda>P. P) \<and> (1::int) \<le> 3 \<and>
   (\<exists>T. sliding_window_table toy 3 1 = Inr T \<and> length T = 4 \<and> T ! 0 = 4 \<and> T ! 3 = 7)"
proof -
  have gl: "group_law toy 0 (\<lambda>P. True) (\<lambda>P::int. P)" by (rule group_law_toy)
  obtain T where T: "sliding_window_table toy 3 1 = Inr T" "length T = 2 ^ nat (3 - 1)"
    "T ! 0 = doublings toy (3 - 1) 1"
    "\<forall>i<length T. True \<and> T ! i = smul (2 ^ nat (3 - 1) + int i) 1"
    using sliding_window_table_contents[OF gl, where Q = 1 and w = 3] by auto
  have "doublings toy (3 - 1) 1 = 4" by code_simp
  moreover have "T ! 3 = smul (2 ^ nat (3 - 1) + int 3) 1" using T(2,4) by simp
  ultimately show ?thesis using gl T(1,2,3) by (simp add: smul_int_eq)
qed

text \<open>
  Claim C5. With window width \<open>w = 1\<close> the wNAF engine should fail with a value
  error. The code only rejects \<open>w \<le> 0\<close>: for the scalar 1 and a point other than
  \<^verbatim>\<open>INFJ\<close> the digit loop never ends (\<^verbatim>\<open>mods(1, 1)\<close> is \<open>-1\<close> and \<open>m\<close> stays
  1), and for the scalar 0 the engine returns \<^verbatim>\<open>INFJ\<close>.
\<close>

theorem w_NAF_width_1_failing_input:
  "mult_jac_w_NAF 0 1 1 1 toy = None \<and> mult_jac_w_NAF 0 0 1 1 toy = Some (Inr 0)"
  using w_NAF_width_1_never_returns[of 1 "1::int" 0 toy]
  by (simp add: mult_jac_w_NAF_def)




text \<open>
  Claim C7, as stated: for a negative digit \<open>d\<close> the wNAF engine adds the table entry
  at index \<open>halfSize - (|d| + 1) / 2\<close>. It does not: for \<open>w = 2\<close> and \<open>m = 3\<close> the
  digits are \<open>-1, 0, 1\<close> and the table is \<open>Q, 3Q, -Q, -3Q\<close>; for the digit \<open>-1\<close> the
  engine adds the entry at index 2, which is \<open>-Q\<close>, while the index of the claim is
  \<open>2 - 1 = 1\<close>, in the lower half, where the entry is \<open>3Q\<close>.
\<close>

theorem w_NAF_negative_index_counterexample:
  "w_NAF_digits 2 3 0 [] = Some (Inr ([- 1, 0, 1], 3)) \<and>
   w_NAF_table toy (2 ^ 2) 1 = Inr [1, 3, - 1, - 3] \<and>
   w_NAF_step toy (2 ^ 2) [1, 3, - 1, - 3] [- 1, 0, 1] 0 0 = Inr (- 1) \<and>
   2 ^ (2 - 1) - (\<bar>- 1\<bar> + 1) div 2 = (1::int) \<and>
   py_nth [1, 3, - 1, - 3] (2 ^ (2 - 1) - (\<bar>- 1\<bar> + 1) div 2) = Inr (3::int)"
  by code_simp

text \<open>
  Claim C7, amended. In the wNAF engine with \<open>w \<ge> 2\<close>, for every non-zero digit
  \<open>d\<close> of the signed-digit sequence: if \<open>d > 0\<close> the engine adds the table entry at
  index \<open>(|d| - 1) / 2\<close>, which represents \<open>d \<cdot> Q\<close>; if \<open>d < 0\<close> it adds the
  table entry at index \<open>halfSize - (d + 1) / 2\<close>, computed from the signed digit, that
  is \<open>halfSize + (|d| - 1) / 2\<close> with \<open>halfSize = 2 ^ (w - 1)\<close>, an entry of the upper
  (negated) half that represents \<open>- |d| \<cdot> Q\<close>. This holds of every digit sequence the
  digit loop returns; it returns one whenever \<open>w \<le> 1024\<close>.
\<close>

theorem w_NAF_table_index:
  assumes "group_law ec infj on pt" and "on Q" and "2 \<le> w" and "0 \<le> m"
  shows "(w \<le> 1024 \<longrightarrow>
            (\<exists>M. w_NAF_digits (nat w) m 0 [] = Some (Inr (M, int (length M))))) \<and>
         (\<exists>T. w_NAF_table ec (2 ^ nat w) Q = Inr T \<and>
            (\<forall>M p. w_NAF_digits (nat w) m 0 [] = Some (Inr (M, p)) \<longrightarrow>
               (\<forall>j<length M. \<forall>R.
                 (0 < M ! j \<longrightarrow>
                    w_NAF_step ec (2 ^ nat w) T M R (int j) =
                      Inr (add_jac ec (add_jac ec R R) (T ! nat ((\<bar>M ! j\<bar> - 1) div 2))) \<and>
                    pt (T ! nat ((\<bar>M ! j\<bar> - 1) div 2)) = smul (M ! j) (pt Q)) \<and>
                 (M ! j < 0 \<longrightarrow>
                    w_NAF_step ec (2 ^ nat w) T M R (int j) =
                      Inr (add_jac ec (add_jac ec R R) (T ! (2 ^ (nat w - 1) + nat ((\<bar>M ! j\<bar> - 1) div 2)))) \<and>
                    2 ^ nat w div 2 - ((M ! j + 1) div 2) = 2 ^ (nat w - 1) + (\<bar>M ! j\<bar> - 1) div 2 \<and>
                    pt (T ! (2 ^ (nat w - 1) + nat ((\<bar>M ! j\<bar> - 1) div 2))) = smul (- \<bar>M ! j\<bar>) (pt Q)))))"
proof -
  define k where "k = nat w"
  have k: "2 \<le> k" "1 \<le> k" using assms(3) by (simp_all add: k_def)
  have returns: "\<exists>M. w_NAF_digits k m 0 [] = Some (Inr (M, int (length M)))" if "w \<le> 1024"
  proof -
    have "k \<le> 1024" using that by (simp add: k_def)
    then obtain M where "w_NAF_digits k m 0 [] = Some (Inr ([] @ M, 0 + int (length M)))"
      using w_NAF_digits_ok[OF k(1) _ assms(4), of 0 "[]"] by auto
    then show ?thesis by auto
  qed
  obtain T where T: "w_NAF_table ec (2 ^ k) Q = Inr T" and len: "length T = 2 ^ k"
    and ent: "\<forall>j<2 ^ (k - 1). on (T ! j) \<and> pt (T ! j) = smul (2 * int j + 1) (pt Q) \<and>
            on (T ! (2 ^ (k - 1) + j)) \<and> pt (T ! (2 ^ (k - 1) + j)) = smul (- (2 * int j + 1)) (pt Q)"
    using w_NAF_table_ok[OF assms(1,2) k(2)] by (elim exE conjE)
  have half: "(2::int) ^ k div 2 = 2 ^ (k - 1)" using k(2) by (cases k) simp_all
  have body: "(0 < M ! j \<longrightarrow>
                 w_NAF_step ec (2 ^ k) T M R (int j) =
                   Inr (add_jac ec (add_jac ec R R) (T ! nat ((\<bar>M ! j\<bar> - 1) div 2))) \<and>
                 pt (T ! nat ((\<bar>M ! j\<bar> - 1) div 2)) = smul (M ! j) (pt Q)) \<and>
              (M ! j < 0 \<longrightarrow>
                 w_NAF_step ec (2 ^ k) T M R (int j) =
                   Inr (add_jac ec (add_jac ec R R) (T ! (2 ^ (k - 1) + nat ((\<bar>M ! j\<bar> - 1) div 2)))) \<and>
                 2 ^ k div 2 - ((M ! j + 1) div 2) = 2 ^ (k - 1) + (\<bar>M ! j\<bar> - 1) div 2 \<and>
                 pt (T ! (2 ^ (k - 1) + nat ((\<bar>M ! j\<bar> - 1) div 2))) = smul (- \<bar>M ! j\<bar>) (pt Q))"
    if ds: "w_NAF_digits k m 0 [] = Some (Inr (M, p))" and j: "j < length M" for M p j R
  proof (intro conjI impI)
    have rng: "\<forall>d\<in>set M. d = 0 \<or> (d mod 2 = 1 \<and> - (2 ^ (k - 1)) < d \<and> d < 2 ^ (k - 1))"
      using w_NAF_digits_sound[OF ds] k(1) by auto
    let ?d = "M ! j"
    have nth: "py_nth M (int j) = Inr ?d" using j by (rule py_nth_in_range)
    have mem: "?d \<in> set M" using j by simp
    {
      assume pos: "0 < ?d"
      then have dd: "?d mod 2 = 1" "- (2 ^ (k - 1)) < ?d" "?d < 2 ^ (k - 1)"
        using rng mem by auto
      have l: "py_nth T ((?d - 1) div 2) = Inr (T ! nat ((?d - 1) div 2))"
        "pt (T ! nat ((?d - 1) div 2)) = smul ?d (pt Q)"
        using w_NAF_lookup(1)[OF k(1) len ent dd pos] by simp_all
      have a: "\<bar>?d\<bar> = ?d" using pos by simp
      show "w_NAF_step ec (2 ^ k) T M R (int j) =
              Inr (add_jac ec (add_jac ec R R) (T ! nat ((\<bar>?d\<bar> - 1) div 2)))"
        unfolding a using nth l(1) pos by (simp add: w_NAF_step_def Let_def)
      show "pt (T ! nat ((\<bar>?d\<bar> - 1) div 2)) = smul ?d (pt Q)"
        unfolding a by (rule l(2))
    }
    {
      assume neg: "?d < 0"
      then have dd: "?d mod 2 = 1" "- (2 ^ (k - 1)) < ?d" "?d < 2 ^ (k - 1)"
        using rng mem by auto
      have l: "py_nth T (2 ^ k div 2 - ((?d + 1) div 2)) = Inr (T ! (2 ^ (k - 1) + nat ((- ?d - 1) div 2)))"
        "pt (T ! (2 ^ (k - 1) + nat ((- ?d - 1) div 2))) = smul ?d (pt Q)"
        using w_NAF_lookup(2)[OF k(1) len ent dd neg] by simp_all
      have a: "\<bar>?d\<bar> = - ?d" using neg by simp
      show "w_NAF_step ec (2 ^ k) T M R (int j) =
              Inr (add_jac ec (add_jac ec R R) (T ! (2 ^ (k - 1) + nat ((\<bar>?d\<bar> - 1) div 2))))"
        unfolding a using nth l(1) neg by (simp add: w_NAF_step_def Let_def)
      show "2 ^ k div 2 - ((?d + 1) div 2) = 2 ^ (k - 1) + (\<bar>?d\<bar> - 1) div 2"
        unfolding a half using dd(1) by presburger
      show "pt (T ! (2 ^ (k - 1) + nat ((\<bar>?d\<bar> - 1) div 2))) = smul (- \<bar>?d\<bar>) (pt Q)"
        unfolding a using l(2) by simp
    }
  qed
  show ?thesis
  proof (intro conjI impI)
    show "\<exists>M. w_NAF_digits (nat w) m 0 [] = Some (Inr (M, int (length M)))" if "w \<le> 1024"
      using returns[OF that] by (simp only: k_def)
    show "\<exists>T. w_NAF_table ec (2 ^ nat w) Q = Inr T \<and>
            (\<forall>M p. w_NAF_digits (nat w) m 0 [] = Some (Inr (M, p)) \<longrightarrow>
               (\<forall>j<length M. \<forall>R.
                 (0 < M ! j \<longrightarrow>
                    w_NAF_step ec (2 ^ nat w) T M R (int j) =
                      Inr (add_jac ec (add_jac ec R R) (T ! nat ((\<bar>M ! j\<bar> - 1) div 2))) \<and>
                    pt (T ! nat ((\<bar>M ! j\<bar> - 1) div 2)) = smul (M ! j) (pt Q)) \<and>
                 (M ! j < 0 \<longrightarrow>
                    w_NAF_step ec (2 ^ nat w) T M R (int j) =
                      Inr (add_jac ec (add_jac ec R R) (T ! (2 ^ (nat w - 1) + nat ((\<bar>M ! j\<bar> - 1) div 2)))) \<and>
                    2 ^ nat w div 2 - ((M ! j + 1) div 2) = 2 ^ (nat w - 1) + (\<bar>M ! j\<bar> - 1) div 2 \<and>
                    pt (T ! (2 ^ (nat w - 1) + nat ((\<bar>M ! j\<bar> - 1) div 2))) = smul (- \<bar>M ! j\<bar>) (pt Q))))"
      using T body unfolding k_def by blast
  qed
qed

theorem w_NAF_table_index_witness:
  "group_law toy 0 (\<lambda>P. True) (\<lambda>P. P) \<and> (2::int) \<le> 2 \<and> (0::int) \<le> 3 \<and> (2::int) \<le> 1024 \<and>
   w_NAF_digits (nat 2) 3 0 [] = Some (Inr ([- 1, 0, 1], 3)) \<and>
   w_NAF_table toy (2 ^ nat 2) 1 = Inr [1, 3, - 1, - 3] \<and>
   w_NAF_step toy (2 ^ nat 2) [1, 3, - 1, - 3] [- 1, 0, 1] 5 0 = Inr 9 \<and>
   w_NAF_step toy (2 ^ nat 2) [1, 3, - 1, - 3] [- 1, 0, 1] 5 2 = Inr 11"
proof -
  have gl: "group_law toy 0 (\<lambda>P. True) (\<lambda>P::int. P)" by (rule group_law_toy)
  have h: "(\<lambda>P::int. True) 1" "(2::int) \<le> 2" "(0::int) \<le> 3" by simp_all
  have d: "w_NAF_digits (nat 2) 3 0 [] = Some (Inr ([- 1, 0, 1], 3))"
    by (simp add: w_NAF_digits.simps mods_eq py_nth_def)
  have t: "w_NAF_table toy (2 ^ nat 2) 1 = Inr [1, 3, - 1, - 3]" by code_simp
  obtain T where T: "w_NAF_table toy (2 ^ nat 2) 1 = Inr T"
    and neg: "\<And>M p j R. w_NAF_digits (nat 2) 3 0 [] = Some (Inr (M, p)) \<Longrightarrow> j < length M \<Longrightarrow> M ! j < 0 \<Longrightarrow>
                 w_NAF_step toy (2 ^ nat 2) T M R (int j) =
                   Inr (add_jac toy (add_jac toy R R) (T ! (2 ^ (nat 2 - 1) + nat ((\<bar>M ! j\<bar> - 1) div 2))))"
    and pos: "\<And>M p j R. w_NAF_digits (nat 2) 3 0 [] = Some (Inr (M, p)) \<Longrightarrow> j < length M \<Longrightarrow> 0 < M ! j \<Longrightarrow>
                 w_NAF_step toy (2 ^ nat 2) T M R (int j) =
                   Inr (add_jac toy (add_jac toy R R) (T ! nat ((\<bar>M ! j\<bar> - 1) div 2)))"
    using w_NAF_table_index[OF gl h] by blast
  have Te: "T = [1, 3, - 1, - 3]" using T t by simp
  have "w_NAF_step toy (2 ^ nat 2) [1, 3, - 1, - 3] [- 1, 0, 1] 5 0 = Inr 9"
    using neg[OF d, of 0 5] unfolding Te by (simp add: toy_def)
  moreover have "w_NAF_step toy (2 ^ nat 2) [1, 3, - 1, - 3] [- 1, 0, 1] 5 2 = Inr 11"
    using pos[OF d, of 2 5] unfolding Te by (simp add: toy_def)
  ultimately show ?thesis using gl d t by simp
qed

text \<open>
  Claim C8, as stated: for every integer \<open>m\<close> and every \<open>w \<ge> 1\<close>, \<^verbatim>\<open>mods(m, w)\<close>
  returns the centred representative of \<open>m\<close> modulo \<open>2 ^ w\<close>. It does not for
  \<open>w = 1025\<close>: the true division \<^verbatim>\<open>w2 / 2\<close> has the result \<open>2 ^ 1024\<close>, too large for
  a float, and \<^verbatim>\<open>mods(1, 1025)\<close> raises \<^verbatim>\<open>OverflowError\<close>.
\<close>

theorem mods_overflow_counterexample:
  "mods 1 1025 = Inl OverflowError"
  by (rule mods_overflow) simp

text \<open>
  Claim C8, amended. For every integer \<open>m\<close> and every \<open>w\<close> with \<open>1 \<le> w \<le> 1024\<close>,
  \<^verbatim>\<open>mods(m, w)\<close> returns a number that is congruent to \<open>m\<close> modulo \<open>2 ^ w\<close> and lies
  between \<open>- 2 ^ (w - 1)\<close> and \<open>2 ^ (w - 1) - 1\<close>.
\<close>

theorem mods_centered:
  assumes "1 \<le> w" and "w \<le> 1024"
  shows "\<exists>d. mods m w = Inr d \<and> d mod 2 ^ w = m mod 2 ^ w \<and>
             - (2 ^ (w - 1)) \<le> d \<and> d \<le> 2 ^ (w - 1) - 1"
proof -
  obtain d where d: "mods m w = Inr d" using mods_returns[OF assms(2)] by blast
  show ?thesis using d mods_range[OF assms(1) d] by blast
qed

theorem mods_centered_witness:
  "(1::nat) \<le> 3 \<and> (3::nat) \<le> 1024 \<and> mods 13 3 = Inr (- 3) \<and>
   (- 3) mod 2 ^ 3 = (13::int) mod 2 ^ 3 \<and> - (2 ^ (3 - 1)) \<le> (- 3::int) \<and>
   (- 3::int) \<le> 2 ^ (3 - 1) - 1"
proof -
  have v: "mods 13 3 = Inr (- 3)" by (subst mods_eq) simp
  show ?thesis using mods_centered[of 3 13] v by simp
qed

text \<open>
  Claim C9, as stated: for every engine and every valid window width the scalar 1
  yields \<open>Q\<close> itself. It does not for the wNAF engine with \<open>w = 1025\<close>: \<^verbatim>\<open>mods(1, 1025)\<close>
  raises \<^verbatim>\<open>OverflowError\<close> in the true division \<^verbatim>\<open>w2 / 2\<close>, and so does the engine,
  while with the scalar 0 it returns \<^verbatim>\<open>INFJ\<close>.
\<close>

theorem identity_laws_counterexample:
  "mult_jac_w_NAF 0 1 1025 3 toy = Some (Inl OverflowError) \<and>
   mult_jac_w_NAF 0 0 1025 3 toy = Some (Inr 0)"
proof -
  have "mult_jac_w_NAF 0 1 1025 3 toy = Some (Inl OverflowError)"
    by (rule w_NAF_overflow) simp_all
  moreover have "mult_jac_w_NAF 0 0 1025 3 toy = Some (Inr 0)"
    by (simp add: mult_jac_w_NAF_def)
  ultimately show ?thesis by simp
qed

text \<open>
  Claim C9, amended. For every engine, every on-curve point \<open>Q\<close> and valid window
  widths: the scalar 0 yields a representative of the neutral element (the point at
  infinity); the scalar 1 yields a representative of \<open>Q\<close> itself, for the wNAF engine
  when its window width is at most 1024; and called on \<^verbatim>\<open>INFJ\<close> with any scalar
  \<open>m \<ge> 0\<close> (and any window width) every engine returns \<^verbatim>\<open>INFJ\<close>.
\<close>

theorem identity_laws:
  assumes "group_law ec infj on pt" and "on Q" and "1 \<le> w1" and "1 \<le> w2" and "2 \<le> w3"
  shows "(\<exists>R1 R2 R3 R4 R5.
            mult_jac_mont_ladder infj 0 Q ec = Inr R1 \<and>
            mult_jac_base_3 infj 0 Q ec = Some (Inr R2) \<and>
            mult_jac_fixed_window infj 0 w1 Q ec = Some (Inr R3) \<and>
            mult_jac_sliding_window infj 0 w2 Q ec = Some (Inr R4) \<and>
            mult_jac_w_NAF infj 0 w3 Q ec = Some (Inr R5) \<and>
            (\<forall>R \<in> {R1, R2, R3, R4, R5}. on R \<and> pt R = 0)) \<and>
         (\<exists>R1 R2 R3 R4.
            mult_jac_mont_ladder infj 1 Q ec = Inr R1 \<and>
            mult_jac_base_3 infj 1 Q ec = Some (Inr R2) \<and>
            mult_jac_fixed_window infj 1 w1 Q ec = Some (Inr R3) \<and>
            mult_jac_sliding_window infj 1 w2 Q ec = Some (Inr R4) \<and>
            (\<forall>R \<in> {R1, R2, R3, R4}. on R \<and> pt R = pt Q)) \<and>
         (w3 \<le> 1024 \<longrightarrow>
            (\<exists>R5. mult_jac_w_NAF infj 1 w3 Q ec = Some (Inr R5) \<and> on R5 \<and> pt R5 = pt Q)) \<and>
         (0 \<le> m \<longrightarrow>
            mult_jac_mont_ladder infj m infj ec = Inr infj \<and>
            mult_jac_base_3 infj m infj ec = Some (Inr infj) \<and>
            mult_jac_fixed_window infj m w infj ec = Some (Inr infj) \<and>
            mult_jac_sliding_window infj m w infj ec = Some (Inr infj) \<and>
            mult_jac_w_NAF infj m w infj ec = Some (Inr infj))"
proof -
  have four: "\<exists>R1 R2 R3 R4.
            mult_jac_mont_ladder infj k Q ec = Inr R1 \<and>
            mult_jac_base_3 infj k Q ec = Some (Inr R2) \<and>
            mult_jac_fixed_window infj k w1 Q ec = Some (Inr R3) \<and>
            mult_jac_sliding_window infj k w2 Q ec = Some (Inr R4) \<and>
            (\<forall>R \<in> {R1, R2, R3, R4}. on R \<and> pt R = smul k (pt Q))" if k: "0 \<le> k" for k
  proof -
    obtain R1 where R1: "mult_jac_mont_ladder infj k Q ec = Inr R1" "on R1" "pt R1 = smul k (pt Q)"
      using mont_ladder_correct[OF assms(1) k assms(2)] by blast
    obtain R2 where R2: "mult_jac_base_3 infj k Q ec = Some (Inr R2)" "on R2" "pt R2 = smul k (pt Q)"
      using base_3_correct[OF assms(1) k assms(2)] by blast
    obtain R3 where R3: "mult_jac_fixed_window infj k w1 Q ec = Some (Inr R3)" "on R3" "pt R3 = smul k (pt Q)"
      using fixed_window_correct[OF assms(1) k assms(2,3)] by blast
    obtain R4 where R4: "mult_jac_sliding_window infj k w2 Q ec = Some (Inr R4)" "on R4" "pt R4 = smul k (pt Q)"
      using sliding_window_correct[OF assms(1) k assms(2,4)] by blast
    have "\<forall>R \<in> {R1, R2, R3, R4}. on R \<and> pt R = smul k (pt Q)"
      using R1(2,3) R2(2,3) R3(2,3) R4(2,3) by blast
    then show ?thesis using R1(1) R2(1) R3(1) R4(1) by blast
  qed
  have inf0: "on infj" "pt infj = 0" using assms(1) by (simp_all add: group_law_def)
  have naf0: "mult_jac_w_NAF infj 0 w3 Q ec = Some (Inr infj)"
    by (simp add: mult_jac_w_NAF_def)
  obtain R1 R2 R3 R4 where z: "mult_jac_mont_ladder infj 0 Q ec = Inr R1"
    "mult_jac_base_3 infj 0 Q ec = Some (Inr R2)"
    "mult_jac_fixed_window infj 0 w1 Q ec = Some (Inr R3)"
    "mult_jac_sliding_window infj 0 w2 Q ec = Some (Inr R4)"
    "\<forall>R \<in> {R1, R2, R3, R4}. on R \<and> pt R = smul 0 (pt Q)"
    using four[of 0] by auto
  have "\<forall>R \<in> {R1, R2, R3, R4, infj}. on R \<and> pt R = 0"
    using z(5) inf0 by (simp only: smul_0) blast
  then have zero: "\<exists>R1 R2 R3 R4 R5.
            mult_jac_mont_ladder infj 0 Q ec = Inr R1 \<and>
            mult_jac_base_3 infj 0 Q ec = Some (Inr R2) \<and>
            mult_jac_fixed_window infj 0 w1 Q ec = Some (Inr R3) \<and>
            mult_jac_sliding_window infj 0 w2 Q ec = Some (Inr R4) \<and>
            mult_jac_w_NAF infj 0 w3 Q ec = Some (Inr R5) \<and>
            (\<forall>R \<in> {R1, R2, R3, R4, R5}. on R \<and> pt R = 0)"
    using z(1,2,3,4) naf0 by blast
  have one: "\<exists>R1 R2 R3 R4.
            mult_jac_mont_ladder infj 1 Q ec = Inr R1 \<and>
            mult_jac_base_3 infj 1 Q ec = Some (Inr R2) \<and>
            mult_jac_fixed_window infj 1 w1 Q ec = Some (Inr R3) \<and>
            mult_jac_sliding_window infj 1 w2 Q ec = Some (Inr R4) \<and>
            (\<forall>R \<in> {R1, R2, R3, R4}. on R \<and> pt R = pt Q)"
    using four[of 1] by (simp only: smul_1)
  have naf1: "w3 \<le> 1024 \<longrightarrow>
            (\<exists>R5. mult_jac_w_NAF infj 1 w3 Q ec = Some (Inr R5) \<and> on R5 \<and> pt R5 = pt Q)"
  proof
    assume b: "w3 \<le> 1024"
    have "(0::int) \<le> 1" by simp
    then show "\<exists>R5. mult_jac_w_NAF infj 1 w3 Q ec = Some (Inr R5) \<and> on R5 \<and> pt R5 = pt Q"
      using w_NAF_correct[OF assms(1) _ assms(2,5) b, of 1] by (simp only: smul_1)
  qed
  have inf: "0 \<le> m \<longrightarrow>
            mult_jac_mont_ladder infj m infj ec = Inr infj \<and>
            mult_jac_base_3 infj m infj ec = Some (Inr infj) \<and>
            mult_jac_fixed_window infj m w infj ec = Some (Inr infj) \<and>
            mult_jac_sliding_window infj m w infj ec = Some (Inr infj) \<and>
            mult_jac_w_NAF infj m w infj ec = Some (Inr infj)"
    by (simp add: mult_jac_mont_ladder_def mult_jac_base_3_def mult_jac_fixed_window_def
        mult_jac_sliding_window_def mult_jac_w_NAF_def)
  show ?thesis by (intro conjI zero one naf1 inf)
qed

theorem identity_laws_witness:
  "group_law toy 0 (\<lambda>P. True) (\<lambda>P. P) \<and> (1::int) \<le> 2 \<and> (1::int) \<le> 3 \<and> (2::int) \<le> 2 \<and>
   (2::int) \<le> 1024 \<and>
   mult_jac_mont_ladder 0 0 3 toy = Inr 0 \<and>
   mult_jac_w_NAF 0 0 2 3 toy = Some (Inr 0) \<and>
   mult_jac_sliding_window 0 1 3 3 toy = Some (Inr 3) \<and>
   mult_jac_base_3 0 1 3 toy = Some (Inr 3) \<and>
   mult_jac_w_NAF 0 1 2 3 toy = Some (Inr 3) \<and>
   mult_jac_fixed_window 0 5 2 0 toy = Some (Inr 0)"
proof -
  have gl: "group_law toy 0 (\<lambda>P. True) (\<lambda>P::int. P)" by (rule group_law_toy)
  show ?thesis
    using gl identity_laws[OF gl, where Q = 3 and ?w1.0 = 2 and ?w2.0 = 3 and ?w3.0 = 2
        and m = 5 and w = 2]
    by auto
qed

text \<open>
  Claim C10. In the loop of \<^verbatim>\<open>_mult_jac_mont_ladder\<close> on an on-curve input point
  \<open>Q0\<close> other than \<^verbatim>\<open>INFJ\<close>, after any number \<open>i\<close> of iterations (so before
  every iteration, and at the exit) the two accumulators satisfy \<open>Q - R = Q0\<close> and
  \<open>R = v \<cdot> Q0\<close>, where \<open>v\<close> is the value of the \<open>i\<close> binary digits consumed so
  far; and the engine returns a representative of \<open>m \<cdot> Q0\<close>.
\<close>

theorem mont_ladder_invariant:
  assumes "group_law ec infj on pt" and "0 \<le> m" and "on Q0" and "Q0 \<noteq> infj"
  shows "(\<forall>i \<le> length (bin_digits (nat m)).
            (case foldl (mont_ladder_step ec) (infj, Q0) (take i (bin_digits (nat m))) of
               (R, Q) \<Rightarrow> pt Q - pt R = pt Q0 \<and>
                         pt R = smul (digits_val 2 0 (take i (bin_digits (nat m)))) (pt Q0)))
         \<and> (\<exists>R. mult_jac_mont_ladder infj m Q0 ec = Inr R \<and> pt R = smul m (pt Q0))"
proof (intro conjI allI impI)
  fix i
  assume "i \<le> length (bin_digits (nat m))"
  let ?ds = "take i (bin_digits (nat m))"
  obtain R Q where f: "foldl (mont_ladder_step ec) (infj, Q0) ?ds = (R, Q)"
    by (cases "foldl (mont_ladder_step ec) (infj, Q0) ?ds")
  have inf: "on infj" "pt infj = 0" using assms(1) by (simp_all add: group_law_def)
  have bits: "\<forall>d\<in>set ?ds. d = 0 \<or> d = 1"
    using bin_digits_bits by (meson in_set_takeD)
  have "on R \<and> on Q \<and> pt Q - pt R = pt Q0 \<and> pt R = smul (digits_val 2 0 ?ds) (pt Q0)"
    by (rule mont_ladder_loop_inv[OF assms(1) _ _ _ _ bits f]) (use inf assms(3) in auto)
  then have "pt Q - pt R = pt Q0" "pt R = smul (digits_val 2 0 ?ds) (pt Q0)"
    by blast+
  then show "case foldl (mont_ladder_step ec) (infj, Q0) ?ds of
               (R, Q) \<Rightarrow> pt Q - pt R = pt Q0 \<and> pt R = smul (digits_val 2 0 ?ds) (pt Q0)"
    unfolding f by (simp only: prod.case simp_thms)
next
  show "\<exists>R. mult_jac_mont_ladder infj m Q0 ec = Inr R \<and> pt R = smul m (pt Q0)"
    using mont_ladder_correct[OF assms(1,2,3)] by blast
qed

theorem mont_ladder_invariant_witness:
  "group_law toy 0 (\<lambda>P. True) (\<lambda>P. P) \<and> (0::int) \<le> 5 \<and> (1::int) \<noteq> 0 \<and>
   foldl (mont_ladder_step toy) (0, 1) (take 2 (bin_digits (nat 5))) = (2, 3) \<and>
   digits_val 2 0 (take 2 (bin_digits (nat 5))) = 2 \<and>
   mult_jac_mont_ladder 0 5 1 toy = Inr 5"
proof -
  have gl: "group_law toy 0 (\<lambda>P. True) (\<lambda>P::int. P)"
    by (simp add: group_law_def toy_def)
  have ev: "foldl (mont_ladder_step toy) (0, 1) (take 2 (bin_digits (nat 5))) = (2, 3)"
    by code_simp
  have dv: "digits_val 2 0 (take 2 (bin_digits (nat 5))) = 2"
    by code_simp
  have len: "2 \<le> length (bin_digits (nat 5))"
    by code_simp
  from mont_ladder_invariant[OF gl, of 5 1] len
  have "mult_jac_mont_ladder 0 5 1 toy = Inr 5"
    by (auto simp: smul_int_eq)
  with gl ev dv show ?thesis by simp
qed

end
